theory Spec2Isabelle
  imports Complex_Main "HOL-Library.Multiset"
begin

section \<open>Data model of \<open>src/script.js\<close>\<close>

text \<open>
  A board is a JavaScript array of row arrays. The values that can sit in a cell, or come
  out of a read, are strings, \<open>undefined\<close> (a read past the end of a row, a hole left by a
  write past the end) and \<open>null\<close> (what the JSON copy makes of \<open>undefined\<close>). Row and column
  indices are the non-negative integers the loops of the program produce.
\<close>

datatype jsval = Undefined | Null | Str string

datatype js_error = TypeError

type_synonym board = "jsval list list"

definition LETTERS :: "jsval list" where
  "LETTERS = [Str ''H'', Str ''O'', Str ''L'', Str ''A'']"

definition EMPTY :: jsval where
  "EMPTY = Str ''''"

abbreviation (input) SIZE :: nat where
  "SIZE \<equiv> 4"

abbreviation (input) BLOCK_SIZE :: nat where
  "BLOCK_SIZE \<equiv> 2"

text \<open>
  \<open>board[row][col]\<close> as an expression: reading a property of \<open>undefined\<close> (a missing row)
  throws \<open>TypeError\<close>; reading past the end of an existing row gives \<open>undefined\<close>.
\<close>

definition get_cell :: "board \<Rightarrow> nat \<Rightarrow> nat \<Rightarrow> js_error + jsval" where
  "get_cell board row col =
     (if row < length board
      then Inr (if col < length (board ! row) then board ! row ! col else Undefined)
      else Inl TypeError)"

text \<open>
  \<open>board[row][col] = val\<close>: writing a property of \<open>undefined\<close> throws; a write past the end
  of a row extends the row, the cells in between being holes that read as \<open>undefined\<close>.
\<close>

definition set_cell :: "board \<Rightarrow> nat \<Rightarrow> nat \<Rightarrow> jsval \<Rightarrow> js_error + board" where
  "set_cell board row col val =
     (if row < length board
      then Inr (board[row :=
             (if col < length (board ! row) then (board ! row)[col := val]
              else board ! row @ replicate (col - length (board ! row)) Undefined @ [val])])
      else Inl TypeError)"

section \<open>\<open>SudokuCore.isValid\<close>\<close>

text \<open>
  The three scans of \<open>isValid\<close>. Each loop is a recursion over the indices it visits; the
  result \<open>Inr False\<close> is the early \<open>return false\<close>, \<open>Inr True\<close> is a loop that ran to its end.
\<close>

fun row_scan :: "board \<Rightarrow> nat \<Rightarrow> nat \<Rightarrow> jsval \<Rightarrow> nat list \<Rightarrow> js_error + bool" where
  "row_scan board row col val [] = Inr True"
| "row_scan board row col val (c # cs) =
     (case get_cell board row c of
        Inl e \<Rightarrow> Inl e
      | Inr x \<Rightarrow> if x = val \<and> c \<noteq> col then Inr False else row_scan board row col val cs)"

fun col_scan :: "board \<Rightarrow> nat \<Rightarrow> nat \<Rightarrow> jsval \<Rightarrow> nat list \<Rightarrow> js_error + bool" where
  "col_scan board row col val [] = Inr True"
| "col_scan board row col val (r # rs) =
     (case get_cell board r col of
        Inl e \<Rightarrow> Inl e
      | Inr x \<Rightarrow> if x = val \<and> r \<noteq> row then Inr False else col_scan board row col val rs)"

fun block_scan ::
  "board \<Rightarrow> nat \<Rightarrow> nat \<Rightarrow> jsval \<Rightarrow> nat \<Rightarrow> nat \<Rightarrow> (nat \<times> nat) list \<Rightarrow> js_error + bool" where
  "block_scan board row col val startRow startCol [] = Inr True"
| "block_scan board row col val startRow startCol ((r, c) # rcs) =
     (case get_cell board (startRow + r) (startCol + c) of
        Inl e \<Rightarrow> Inl e
      | Inr x \<Rightarrow>
          if x = val \<and> (startRow + r \<noteq> row \<or> startCol + c \<noteq> col) then Inr False
          else block_scan board row col val startRow startCol rcs)"

definition isValid :: "board \<Rightarrow> nat \<Rightarrow> nat \<Rightarrow> jsval \<Rightarrow> js_error + bool" where
  "isValid board row col val =
     (case row_scan board row col val [0..<SIZE] of
        Inl e \<Rightarrow> Inl e
      | Inr False \<Rightarrow> Inr False
      | Inr True \<Rightarrow>
          (case col_scan board row col val [0..<SIZE] of
             Inl e \<Rightarrow> Inl e
           | Inr False \<Rightarrow> Inr False
           | Inr True \<Rightarrow>
               (let startRow = (row div BLOCK_SIZE) * BLOCK_SIZE;
                    startCol = (col div BLOCK_SIZE) * BLOCK_SIZE
                in block_scan board row col val startRow startCol
                     (concat (map (\<lambda>r. map (\<lambda>c. (r, c)) [0..<BLOCK_SIZE]) [0..<BLOCK_SIZE])))))"

section \<open>The random source and the shuffle\<close>

text \<open>
  \<open>Math.random()\<close> hands out the next number of an arbitrary sequence, brought into
  \<open>[0, 1)\<close>; the state of the source is the rest of the sequence. \<open>random_below n\<close> is
  \<open>Math.floor(Math.random() * n)\<close>, computed in the reals.
\<close>

type_synonym rng = "nat \<Rightarrow> real"

definition Math_random :: "rng \<Rightarrow> real \<times> rng" where
  "Math_random g = (frac (g 0), \<lambda>k. g (Suc k))"

definition random_below :: "int \<Rightarrow> rng \<Rightarrow> int \<times> rng" where
  "random_below n g = (let (x, g') = Math_random g in (\<lfloor>x * of_int n\<rfloor>, g'))"

text \<open>
  The Fisher-Yates loop \<open>for (i = length - 1; i > 0; i--)\<close> with the destructuring swap of
  \<open>xs[i]\<close> and \<open>xs[j]\<close>.
\<close>

definition swap :: "'a list \<Rightarrow> nat \<Rightarrow> nat \<Rightarrow> 'a list" where
  "swap xs i j = (xs[i := xs ! j])[j := xs ! i]"

fun shuffle_from :: "nat \<Rightarrow> 'a list \<Rightarrow> rng \<Rightarrow> 'a list \<times> rng" where
  "shuffle_from 0 xs g = (xs, g)"
| "shuffle_from (Suc i') xs g =
     (let (j, g') = random_below (int (Suc i') + 1) g
      in shuffle_from i' (swap xs (Suc i') (nat j)) g')"

definition shuffle :: "'a list \<Rightarrow> rng \<Rightarrow> 'a list \<times> rng" where
  "shuffle xs g = shuffle_from (length xs - 1) xs g"

section \<open>\<open>SudokuCore.solve\<close>\<close>

text \<open>
  The nested \<open>for\<close> loops of \<open>solve\<close> and of \<open>solveInternal\<close> visit the cells in row-major
  order and leave at the first one that reads as \<open>EMPTY\<close>; \<open>first_empty\<close> is that scan.
\<close>

definition cells :: "(nat \<times> nat) list" where
  "cells = concat (map (\<lambda>row. map (\<lambda>col. (row, col)) [0..<SIZE]) [0..<SIZE])"

fun first_empty :: "board \<Rightarrow> (nat \<times> nat) list \<Rightarrow> js_error + (nat \<times> nat) option" where
  "first_empty board [] = Inr None"
| "first_empty board ((row, col) # rest) =
     (case get_cell board row col of
        Inl e \<Rightarrow> Inl e
      | Inr x \<Rightarrow> if x = EMPTY then Inr (Some (row, col)) else first_empty board rest)"

text \<open>
  \<open>solve\<close> mutates the board in place and draws from the random source, so the model
  returns the board and the source next to the boolean. \<open>try_candidates\<close> is the loop
  \<open>for (const val of candidates)\<close>; after a failed recursive call it goes on with the board
  as that call left it, the cell reset to \<open>EMPTY\<close>.
\<close>

function solve :: "board \<Rightarrow> bool \<Rightarrow> rng \<Rightarrow> js_error + (bool \<times> board \<times> rng)"
  and try_candidates ::
    "board \<Rightarrow> nat \<Rightarrow> nat \<Rightarrow> jsval list \<Rightarrow> bool \<Rightarrow> rng \<Rightarrow> js_error + (bool \<times> board \<times> rng)"
where
  "solve board randomized g =
     (case first_empty board cells of
        Inl e \<Rightarrow> Inl e
      | Inr None \<Rightarrow> Inr (True, board, g)
      | Inr (Some (row, col)) \<Rightarrow>
          (let (candidates, g') = (if randomized then shuffle LETTERS g else (LETTERS, g))
           in try_candidates board row col candidates randomized g'))"
| "try_candidates board row col [] randomized g = Inr (False, board, g)"
| "try_candidates board row col (val # rest) randomized g =
     (case isValid board row col val of
        Inl e \<Rightarrow> Inl e
      | Inr False \<Rightarrow> try_candidates board row col rest randomized g
      | Inr True \<Rightarrow>
          (case set_cell board row col val of
             Inl e \<Rightarrow> Inl e
           | Inr placed \<Rightarrow>
               (case solve placed randomized g of
                  Inl e \<Rightarrow> Inl e
                | Inr (True, solved, g') \<Rightarrow> Inr (True, solved, g')
                | Inr (False, failed, g') \<Rightarrow>
                    (case set_cell failed row col EMPTY of
                       Inl e \<Rightarrow> Inl e
                     | Inr undone \<Rightarrow> try_candidates undone row col rest randomized g'))))"
  by pat_completeness auto


text \<open>
  Termination: every recursive call of \<open>solve\<close> works on a board with fewer empty cells. The
  call after a failed attempt runs on the board the attempt returned, so the proof needs
  to know first that a failed call hands the board back as it got it.
\<close>

definition empties :: "board \<Rightarrow> nat" where
  "empties board = length (filter (\<lambda>p. get_cell board (fst p) (snd p) = Inr EMPTY) cells)"

definition other_empties :: "board \<Rightarrow> nat \<Rightarrow> nat \<Rightarrow> nat" where
  "other_empties board row col =
     length (filter (\<lambda>p. p \<noteq> (row, col) \<and> get_cell board (fst p) (snd p) = Inr EMPTY) cells)"

lemma first_empty_Some:
  "first_empty board ps = Inr (Some (row, col)) \<Longrightarrow>
     (row, col) \<in> set ps \<and> get_cell board row col = Inr EMPTY"
  by (induction ps) (auto split: sum.splits if_splits)

lemma set_cell_same:
  "get_cell board row col = Inr EMPTY \<Longrightarrow> set_cell board row col EMPTY = Inr board"
proof -
  assume a: "get_cell board row col = Inr EMPTY"
  then have r: "row < length board"
    by (auto simp: get_cell_def split: if_splits)
  with a have c: "col < length (board ! row)" and v: "board ! row ! col = EMPTY"
    by (auto simp: get_cell_def EMPTY_def split: if_splits)
  have "(board ! row)[col := EMPTY] = board ! row"
    using v list_update_id [of "board ! row" col] by simp
  then show ?thesis
    using r c by (simp add: set_cell_def)
qed

lemma set_cell_twice:
  "set_cell board row col v = Inr b1 \<Longrightarrow> set_cell b1 row col w = set_cell board row col w"
  by (auto simp: set_cell_def nth_append list_update_append split: if_splits)

lemma get_set_other:
  "set_cell board row col v = Inr b1 \<Longrightarrow> (r, c) \<noteq> (row, col) \<Longrightarrow>
     get_cell b1 r c = get_cell board r c"
  by (auto simp: set_cell_def get_cell_def nth_append nth_list_update split: if_splits)

lemma get_set_same:
  "set_cell board row col v = Inr b1 \<Longrightarrow> get_cell b1 row col = Inr v"
  by (auto simp: set_cell_def get_cell_def nth_append nth_list_update split: if_splits)

lemma solve_failure_restores_dom:
  shows "solve_try_candidates_dom (Inl (board, randomized, g)) \<Longrightarrow>
           solve board randomized g = Inr (False, b', g') \<Longrightarrow> b' = board"
    and "solve_try_candidates_dom (Inr (board, row, col, vals, randomized, g)) \<Longrightarrow>
           try_candidates board row col vals randomized g = Inr (False, b', g') \<Longrightarrow>
           b' = board \<or> set_cell board row col EMPTY = Inr b'"
proof (induct arbitrary: b' g' and b' g' rule: solve_try_candidates.pinduct)
  case (1 board randomized g)
  from "1.prems" "1.hyps"(1) obtain row col where
    fe: "first_empty board cells = Inr (Some (row, col))"
    by (auto simp: solve.psimps split: sum.splits option.splits)
  obtain candidates g1 where
    sh: "(if randomized then shuffle LETTERS g else (LETTERS, g)) = (candidates, g1)"
    by (cases "if randomized then shuffle LETTERS g else (LETTERS, g)")
  have "try_candidates board row col candidates randomized g1 = Inr (False, b', g')"
    using "1.prems" "1.hyps"(1) fe sh by (simp add: solve.psimps)
  then have "b' = board \<or> set_cell board row col EMPTY = Inr b'"
    using "1.hyps"(2) [OF fe refl refl refl sh [symmetric]] by blast
  moreover have "set_cell board row col EMPTY = Inr board"
    using first_empty_Some [OF fe] by (simp add: set_cell_same)
  ultimately show ?case by auto
next
  case (2 board row col randomized g)
  then show ?case by (simp add: try_candidates.psimps)
next
  case (3 board row col val rest randomized g)
  note run = "3.prems" [unfolded try_candidates.psimps(2) [OF "3.hyps"(1)]]
  show ?case
  proof (cases "isValid board row col val")
    case (Inl e)
    with run show ?thesis by simp
  next
    case (Inr ok)
    show ?thesis
    proof (cases ok)
      case False
      with run Inr "3.hyps"(4) show ?thesis by auto
    next
      case True
      from run Inr True obtain placed where
        pl: "set_cell board row col val = Inr placed"
        by (cases "set_cell board row col val") auto
      from run Inr True pl obtain failed g1 where
        so: "solve placed randomized g = Inr (False, failed, g1)"
        by (cases "solve placed randomized g") (auto split: bool.splits prod.splits)
      have "failed = placed"
        using "3.hyps"(2) [OF Inr _ pl so] True by simp
      from run Inr True pl so obtain undone where
        un: "set_cell failed row col EMPTY = Inr undone"
        by (cases "set_cell failed row col EMPTY") auto
      have rest: "try_candidates undone row col rest randomized g1 = Inr (False, b', g')"
        using run Inr True pl so un by simp
      have "b' = undone \<or> set_cell undone row col EMPTY = Inr b'"
        using "3.hyps"(3) [OF Inr _ pl so refl refl refl un rest] True by simp
      moreover have "set_cell board row col EMPTY = Inr undone"
        using un pl \<open>failed = placed\<close> by (simp add: set_cell_twice)
      moreover have "set_cell undone row col EMPTY = Inr undone"
        using un by (simp add: set_cell_same get_set_same)
      ultimately show ?thesis by auto
    qed
  qed
qed


lemma random_below_range:
  assumes "0 < n"
  shows "0 \<le> fst (random_below n g)" and "fst (random_below n g) < n"
proof -
  have f: "0 \<le> frac (g 0)" "frac (g 0) < 1"
    by (simp_all add: frac_lt_1)
  have "0 \<le> frac (g 0) * of_int n"
    using f assms by simp
  then show "0 \<le> fst (random_below n g)"
    by (simp add: random_below_def Math_random_def)
  have "frac (g 0) * of_int n < 1 * of_int n"
    using f assms by (intro mult_strict_right_mono) simp_all
  then show "fst (random_below n g) < n"
    by (simp add: random_below_def Math_random_def floor_less_iff)
qed

lemma mset_swap_cells: "i < length xs \<Longrightarrow> j < length xs \<Longrightarrow> mset (swap xs i j) = mset xs"
  by (simp add: swap_def mset_swap)

lemma length_swap [simp]: "length (swap xs i j) = length xs"
  by (simp add: swap_def)

lemma mset_shuffle_from:
  "i < length xs \<Longrightarrow> mset (fst (shuffle_from i xs g)) = mset xs"
proof (induction i arbitrary: xs g)
  case 0
  then show ?case by simp
next
  case (Suc i)
  obtain j g' where r: "random_below (int (Suc i) + 1) g = (j, g')"
    by (cases "random_below (int (Suc i) + 1) g")
  have "0 \<le> j" "j < int (Suc i) + 1"
    using random_below_range [of "int (Suc i) + 1" g] r by simp_all
  then have j: "nat j < length xs"
    using Suc.prems by linarith
  have "mset (fst (shuffle_from i (swap xs (Suc i) (nat j)) g')) = mset (swap xs (Suc i) (nat j))"
    using Suc.prems by (intro Suc.IH) simp
  then show ?case
    using r j Suc.prems by (simp add: mset_swap_cells)
qed

lemma mset_shuffle: "mset (fst (shuffle xs g)) = mset xs"
  by (cases xs) (simp_all add: shuffle_def mset_shuffle_from)

lemma set_shuffle: "set (fst (shuffle xs g)) = set xs"
  using mset_shuffle [of xs g] by (metis set_mset_mset)

lemma EMPTY_notin_LETTERS: "EMPTY \<notin> set LETTERS"
  by (simp add: EMPTY_def LETTERS_def)

lemma filter_split_off:
  "distinct xs \<Longrightarrow>
     length (filter P xs) =
     length (filter (\<lambda>q. q \<noteq> p \<and> P q) xs) + (if p \<in> set xs \<and> P p then 1 else 0)"
  by (induction xs) auto

lemma cells_unfold:
  "cells = [(0, 0), (0, 1), (0, 2), (0, 3), (1, 0), (1, 1), (1, 2), (1, 3),
            (2, 0), (2, 1), (2, 2), (2, 3), (3, 0), (3, 1), (3, 2), (3, 3)]"
  by (simp add: cells_def upt_conv_Cons)

lemma distinct_cells: "distinct cells"
  by (simp add: cells_unfold)

lemma empties_split:
  "empties board =
     other_empties board row col +
     (if (row, col) \<in> set cells \<and> get_cell board row col = Inr EMPTY then 1 else 0)"
  unfolding empties_def other_empties_def
  using filter_split_off [OF distinct_cells,
      of "\<lambda>p. get_cell board (fst p) (snd p) = Inr EMPTY" "(row, col)"]
  by simp

lemma other_empties_set_cell:
  "set_cell board row col v = Inr b1 \<Longrightarrow> other_empties b1 row col = other_empties board row col"
proof -
  assume a: "set_cell board row col v = Inr b1"
  have "p \<noteq> (row, col) \<Longrightarrow> get_cell b1 (fst p) (snd p) = get_cell board (fst p) (snd p)" for p
    using get_set_other [OF a, of "fst p" "snd p"] by simp
  then have "filter (\<lambda>p. p \<noteq> (row, col) \<and> get_cell b1 (fst p) (snd p) = Inr EMPTY) cells =
      filter (\<lambda>p. p \<noteq> (row, col) \<and> get_cell board (fst p) (snd p) = Inr EMPTY) cells"
    by (intro filter_cong refl conj_cong) simp_all
  then show ?thesis
    by (simp add: other_empties_def)
qed

lemma set_candidates:
  "set (fst (if randomized then shuffle LETTERS g else (LETTERS, g))) = set LETTERS"
  by (simp add: set_shuffle)

lemma empties_set_cell_le:
  assumes "set_cell board row col v = Inr b1"
  shows "empties b1 \<le> other_empties board row col + count_list (v # rest) EMPTY"
proof -
  have "empties b1 = other_empties board row col +
      (if (row, col) \<in> set cells \<and> v = EMPTY then 1 else 0)"
    using empties_split [of b1 row col] other_empties_set_cell [OF assms] get_set_same [OF assms]
    by simp
  then show ?thesis by simp
qed

lemma solve_terminates: "All solve_try_candidates_dom"
  apply (relation "inv_image (less_than <*lex*> less_than)
    (\<lambda>x. case x of
       Inl (board, randomized, g) \<Rightarrow> (empties board, 0)
     | Inr (board, row, col, vals, randomized, g) \<Rightarrow>
         (other_empties board row col + count_list vals EMPTY, Suc (length vals)))")
  subgoal by (intro wf_inv_image wf_lex_prod wf_less_than)
  subgoal premises prems for board randomized g b x2 row col xa candidates g'
  proof -
    have fe: "first_empty board cells = Inr (Some (row, col))"
      using prems by simp
    have "candidates = fst (if randomized then shuffle LETTERS g else (LETTERS, g))"
      using arg_cong [OF prems(5), of fst] prems(4) by simp
    then have "set candidates = set LETTERS"
      by (simp only: set_candidates)
    then have "count_list candidates EMPTY = 0"
      using EMPTY_notin_LETTERS by (simp add: count_list_0_iff)
    moreover have "empties board = other_empties board row col + 1"
      using first_empty_Some [OF fe] empties_split [of board row col] by simp
    ultimately show ?thesis by simp
  qed
  subgoal premises prems for board row col val rest randomized g b placed
  proof -
    have "empties placed \<le> other_empties board row col + count_list (val # rest) EMPTY"
      using prems by (intro empties_set_cell_le) simp
    then have "empties placed < other_empties board row col + count_list (val # rest) EMPTY \<or>
        empties placed = other_empties board row col + count_list (val # rest) EMPTY"
      by (rule le_imp_less_or_eq)
    then show ?thesis by simp
  qed
  subgoal premises prems for board row col val rest randomized g b placed res ok y failed g' undone
  proof -
    have "failed = placed"
      using solve_failure_restores_dom(1) [OF prems(9)] prems by auto
    then have "set_cell board row col EMPTY = Inr undone"
      using prems set_cell_twice [of board row col val placed EMPTY] by simp
    then have "other_empties undone row col = other_empties board row col"
      by (rule other_empties_set_cell)
    then show ?thesis by auto
  qed
  subgoal by auto
  done

termination solve
  by (rule solve_terminates)

lemma solve_failure_restores:
  "solve board randomized g = Inr (False, b', g') \<Longrightarrow> b' = board"
  using solve_failure_restores_dom(1) solve_terminates by blast

declare solve.simps [simp del]

declare try_candidates.simps [simp del]

section \<open>\<open>SudokuCore.countSolutions\<close>\<close>

text \<open>
  \<open>solveInternal\<close> mutates the board it is given and the counter of the enclosing call;
  both are returned. \<open>count_candidates\<close> is the loop \<open>for (const val of LETTERS)\<close> with its
  pruning exit, taken right after the cell has been reset.
\<close>

function solveInternal :: "board \<Rightarrow> nat \<Rightarrow> js_error + (board \<times> nat)"
  and count_candidates ::
    "board \<Rightarrow> nat \<Rightarrow> nat \<Rightarrow> jsval list \<Rightarrow> nat \<Rightarrow> js_error + (board \<times> nat)"
where
  "solveInternal currentBoard counter =
     (case first_empty currentBoard cells of
        Inl e \<Rightarrow> Inl e
      | Inr None \<Rightarrow> Inr (currentBoard, counter + 1)
      | Inr (Some (row, col)) \<Rightarrow> count_candidates currentBoard row col LETTERS counter)"
| "count_candidates currentBoard row col [] counter = Inr (currentBoard, counter)"
| "count_candidates currentBoard row col (val # rest) counter =
     (case isValid currentBoard row col val of
        Inl e \<Rightarrow> Inl e
      | Inr False \<Rightarrow> count_candidates currentBoard row col rest counter
      | Inr True \<Rightarrow>
          (case set_cell currentBoard row col val of
             Inl e \<Rightarrow> Inl e
           | Inr placed \<Rightarrow>
               (case solveInternal placed counter of
                  Inl e \<Rightarrow> Inl e
                | Inr (returned, counter') \<Rightarrow>
                    (case set_cell returned row col EMPTY of
                       Inl e \<Rightarrow> Inl e
                     | Inr undone \<Rightarrow>
                         if counter' > 1 then Inr (undone, counter')
                         else count_candidates undone row col rest counter'))))"
  by pat_completeness auto

lemma solveInternal_restores_dom:
  shows "solveInternal_count_candidates_dom (Inl (board, counter)) \<Longrightarrow>
           solveInternal board counter = Inr (b', n) \<Longrightarrow> b' = board"
    and "solveInternal_count_candidates_dom (Inr (board, row, col, vals, counter)) \<Longrightarrow>
           count_candidates board row col vals counter = Inr (b', n) \<Longrightarrow>
           b' = board \<or> set_cell board row col EMPTY = Inr b'"
proof (induct arbitrary: b' n and b' n rule: solveInternal_count_candidates.pinduct)
  case (1 board counter)
  note run = "1.prems" [unfolded solveInternal.psimps [OF "1.hyps"(1)]]
  show ?case
  proof (cases "first_empty board cells")
    case (Inl e)
    with run show ?thesis by simp
  next
    case (Inr found)
    show ?thesis
    proof (cases found)
      case None
      with run Inr show ?thesis by simp
    next
      case (Some p)
      obtain row col where p: "p = (row, col)" by (cases p)
      have fe: "first_empty board cells = Inr (Some (row, col))"
        using Inr Some p by simp
      have "count_candidates board row col LETTERS counter = Inr (b', n)"
        using run fe by simp
      then have "b' = board \<or> set_cell board row col EMPTY = Inr b'"
        using "1.hyps"(2) [OF fe refl refl] by blast
      moreover have "set_cell board row col EMPTY = Inr board"
        using first_empty_Some [OF fe] by (simp add: set_cell_same)
      ultimately show ?thesis by auto
    qed
  qed
next
  case (2 board row col counter)
  then show ?case by (simp add: count_candidates.psimps)
next
  case (3 board row col val rest counter)
  note run = "3.prems" [unfolded count_candidates.psimps(2) [OF "3.hyps"(1)]]
  show ?case
  proof (cases "isValid board row col val")
    case (Inl e)
    with run show ?thesis by simp
  next
    case (Inr ok)
    show ?thesis
    proof (cases ok)
      case False
      with run Inr "3.hyps"(4) show ?thesis by auto
    next
      case True
      from run Inr True obtain placed where
        pl: "set_cell board row col val = Inr placed"
        by (cases "set_cell board row col val") auto
      from run Inr True pl obtain returned n1 where
        so: "solveInternal placed counter = Inr (returned, n1)"
        by (cases "solveInternal placed counter") auto
      have same: "returned = placed"
        using "3.hyps"(2) [OF Inr _ pl so] True by simp
      from run Inr True pl so obtain undone where
        un: "set_cell returned row col EMPTY = Inr undone"
        by (cases "set_cell returned row col EMPTY") auto
      have undone: "set_cell board row col EMPTY = Inr undone"
        using un pl same by (simp add: set_cell_twice)
      have again: "set_cell undone row col EMPTY = Inr undone"
        using un by (simp add: set_cell_same get_set_same)
      show ?thesis
      proof (cases "n1 > 1")
        case True
        with run Inr \<open>ok\<close> pl so un undone show ?thesis by simp
      next
        case False
        then have rest: "count_candidates undone row col rest n1 = Inr (b', n)"
          using run Inr \<open>ok\<close> pl so un by simp
        have "b' = undone \<or> set_cell undone row col EMPTY = Inr b'"
          using "3.hyps"(3) [OF Inr _ pl so refl un _ rest] \<open>ok\<close> False by simp
        with undone again show ?thesis by auto
      qed
    qed
  qed
qed

lemma solveInternal_terminates: "All solveInternal_count_candidates_dom"
  apply (relation "inv_image (less_than <*lex*> less_than)
    (\<lambda>x. case x of
       Inl (board, counter) \<Rightarrow> (empties board, 0)
     | Inr (board, row, col, vals, counter) \<Rightarrow>
         (other_empties board row col + count_list vals EMPTY, Suc (length vals)))")
  subgoal by (intro wf_inv_image wf_lex_prod wf_less_than)
  subgoal premises prems for board counter b x2 row col
  proof -
    have fe: "first_empty board cells = Inr (Some (row, col))"
      using prems by simp
    have "count_list LETTERS EMPTY = 0"
      using EMPTY_notin_LETTERS by (simp add: count_list_0_iff)
    moreover have "empties board = other_empties board row col + 1"
      using first_empty_Some [OF fe] empties_split [of board row col] by simp
    ultimately show ?thesis by simp
  qed
  subgoal premises prems for board row col val rest counter b placed
  proof -
    have "empties placed \<le> other_empties board row col + count_list (val # rest) EMPTY"
      using prems by (intro empties_set_cell_le) simp
    then have "empties placed < other_empties board row col + count_list (val # rest) EMPTY \<or>
        empties placed = other_empties board row col + count_list (val # rest) EMPTY"
      by (rule le_imp_less_or_eq)
    then show ?thesis by simp
  qed
  subgoal premises prems for board row col val rest counter b placed res returned counter' undone
  proof -
    have "returned = placed"
      using solveInternal_restores_dom(1) [OF prems(8)] prems by auto
    then have "set_cell board row col EMPTY = Inr undone"
      using prems set_cell_twice [of board row col val placed EMPTY] by simp
    then have "other_empties undone row col = other_empties board row col"
      by (rule other_empties_set_cell)
    then show ?thesis by auto
  qed
  subgoal by auto
  done

termination solveInternal
  by (rule solveInternal_terminates)

lemma solveInternal_restores:
  "solveInternal board counter = Inr (b', n) \<Longrightarrow> b' = board"
  using solveInternal_restores_dom(1) solveInternal_terminates by blast

declare solveInternal.simps [simp del]

declare count_candidates.simps [simp del]

text \<open>
  \<open>JSON.parse(JSON.stringify(board))\<close>: a fresh array of fresh rows with the same strings;
  \<open>undefined\<close> in an array is written as \<open>null\<close>.
\<close>

definition deep_copy :: "board \<Rightarrow> board" where
  "deep_copy board = map (map (\<lambda>v. if v = Undefined then Null else v)) board"

definition countSolutions :: "board \<Rightarrow> js_error + nat" where
  "countSolutions board =
     (case solveInternal (deep_copy board) 0 of
        Inl e \<Rightarrow> Inl e
      | Inr (currentBoard, counter) \<Rightarrow> Inr counter)"

section \<open>\<open>SudokuCore.generateFullBoard\<close> and \<open>SudokuCore.generatePuzzle\<close>\<close>

text \<open>The result of \<open>solve\<close> is dropped; the board is returned as \<open>solve\<close> left it.\<close>

definition generateFullBoard :: "rng \<Rightarrow> js_error + (board \<times> rng)" where
  "generateFullBoard g =
     (case solve (replicate SIZE (replicate SIZE EMPTY)) True g of
        Inl e \<Rightarrow> Inl e
      | Inr (found, board, g') \<Rightarrow> Inr (board, g'))"

text \<open>
  The hole-digging loop \<open>for (const [r, c] of positions)\<close>; its state is the puzzle and
  \<open>cellsToRemove\<close>, and both are returned as the loop leaves them.
\<close>

fun dig :: "board \<Rightarrow> (nat \<times> nat) list \<Rightarrow> int \<Rightarrow> js_error + (board \<times> int)" where
  "dig puzzle [] cellsToRemove = Inr (puzzle, cellsToRemove)"
| "dig puzzle ((r, c) # positions) cellsToRemove =
     (if cellsToRemove \<le> 0 then Inr (puzzle, cellsToRemove)
      else
        (case get_cell puzzle r c of
           Inl e \<Rightarrow> Inl e
         | Inr backup \<Rightarrow>
             (case set_cell puzzle r c EMPTY of
                Inl e \<Rightarrow> Inl e
              | Inr blanked \<Rightarrow>
                  (case countSolutions blanked of
                     Inl e \<Rightarrow> Inl e
                   | Inr solutions \<Rightarrow>
                       if solutions \<noteq> 1
                       then (case set_cell blanked r c backup of
                               Inl e \<Rightarrow> Inl e
                             | Inr restored \<Rightarrow> dig restored positions cellsToRemove)
                       else dig blanked positions (cellsToRemove - 1)))))"

definition generatePuzzle :: "int \<Rightarrow> int \<Rightarrow> rng \<Rightarrow> js_error + ((board \<times> board) \<times> rng)" where
  "generatePuzzle minClues maxClues g =
     (case generateFullBoard g of
        Inl e \<Rightarrow> Inl e
      | Inr (solution, g1) \<Rightarrow>
          (let puzzle = deep_copy solution;
               (drawn, g2) = random_below (maxClues - minClues + 1) g1;
               cellsToRemove = int (SIZE * SIZE) - (drawn + minClues);
               (positions, g3) = shuffle cells g2
           in case dig puzzle positions cellsToRemove of
                Inl e \<Rightarrow> Inl e
              | Inr (puzzle', remaining) \<Rightarrow> Inr ((puzzle', solution), g3)))"

section \<open>Grids, constraints and completions\<close>

text \<open>
  The vocabulary of the specification. A grid is a board of four rows of four cells; the
  cells of a grid hold \<open>EMPTY\<close> or a letter. Two cells are peers when they are different
  cells of one row, one column or one 2x2 block. A board is consistent when no filled cell
  has its value again in a peer. A completion of a board is a solved grid that agrees with
  the board on every filled cell.
\<close>

definition grid :: "board \<Rightarrow> bool" where
  "grid board \<longleftrightarrow> length board = SIZE \<and> (\<forall>row \<in> set board. length row = SIZE)"

definition cell :: "board \<Rightarrow> nat \<times> nat \<Rightarrow> jsval" where
  "cell board p = board ! fst p ! snd p"

definition put :: "board \<Rightarrow> nat \<times> nat \<Rightarrow> jsval \<Rightarrow> board" where
  "put board p val = board[fst p := (board ! fst p)[snd p := val]]"

definition peers :: "nat \<times> nat \<Rightarrow> nat \<times> nat \<Rightarrow> bool" where
  "peers p q \<longleftrightarrow>
     p \<noteq> q \<and>
     (fst p = fst q \<or> snd p = snd q \<or>
      (fst p div BLOCK_SIZE = fst q div BLOCK_SIZE \<and> snd p div BLOCK_SIZE = snd q div BLOCK_SIZE))"

definition occurs_among_peers :: "board \<Rightarrow> nat \<times> nat \<Rightarrow> jsval \<Rightarrow> bool" where
  "occurs_among_peers board p val \<longleftrightarrow> (\<exists>q \<in> set cells. peers p q \<and> cell board q = val)"

definition symbols_ok :: "board \<Rightarrow> bool" where
  "symbols_ok board \<longleftrightarrow> (\<forall>p \<in> set cells. cell board p = EMPTY \<or> cell board p \<in> set LETTERS)"

definition consistent :: "board \<Rightarrow> bool" where
  "consistent board \<longleftrightarrow>
     (\<forall>p \<in> set cells. \<forall>q \<in> set cells.
        peers p q \<and> cell board p \<noteq> EMPTY \<longrightarrow> cell board p \<noteq> cell board q)"

definition filled :: "board \<Rightarrow> bool" where
  "filled board \<longleftrightarrow> (\<forall>p \<in> set cells. cell board p \<in> set LETTERS)"

definition solved :: "board \<Rightarrow> bool" where
  "solved board \<longleftrightarrow> grid board \<and> filled board \<and> consistent board"

definition extends :: "board \<Rightarrow> board \<Rightarrow> bool" where
  "extends board full \<longleftrightarrow> (\<forall>p \<in> set cells. cell board p \<noteq> EMPTY \<longrightarrow> cell full p = cell board p)"

definition completions :: "board \<Rightarrow> board set" where
  "completions board = {full. solved full \<and> extends board full}"

definition clues :: "board \<Rightarrow> nat" where
  "clues board = length (filter (\<lambda>p. cell board p \<noteq> EMPTY) cells)"

text \<open>The rows, the columns and the four blocks, each as the list of its cells.\<close>

definition units :: "(nat \<times> nat) list list" where
  "units =
     map (\<lambda>r. map (\<lambda>c. (r, c)) [0..<SIZE]) [0..<SIZE] @
     map (\<lambda>c. map (\<lambda>r. (r, c)) [0..<SIZE]) [0..<SIZE] @
     concat (map (\<lambda>br. map (\<lambda>bc.
       concat (map (\<lambda>r. map (\<lambda>c. (br * BLOCK_SIZE + r, bc * BLOCK_SIZE + c)) [0..<BLOCK_SIZE])
         [0..<BLOCK_SIZE])) [0..<BLOCK_SIZE]) [0..<BLOCK_SIZE])"

definition each_letter_once :: "board \<Rightarrow> bool" where
  "each_letter_once board \<longleftrightarrow>
     (\<forall>u \<in> set units. \<forall>v \<in> set LETTERS. count_list (map (cell board) u) v = 1)"

section \<open>Elementary facts about grids\<close>

lemma less_4_cases: "n < 4 \<Longrightarrow> n = 0 \<or> n = 1 \<or> n = 2 \<or> n = (3::nat)"
  by arith

lemma length_4_explicit: "length xs = 4 \<Longrightarrow> \<exists>a b c d. xs = [a, b, c, d]"
  by (cases xs; simp; (cases "tl xs"; simp; (cases "tl (tl xs)"; simp; (cases "tl (tl (tl xs))"; simp))))

lemma grid_explicit:
  assumes "grid board"
  obtains a0 a1 a2 a3 b0 b1 b2 b3 c0 c1 c2 c3 d0 d1 d2 d3 where
    "board = [[a0, a1, a2, a3], [b0, b1, b2, b3], [c0, c1, c2, c3], [d0, d1, d2, d3]]"
proof -
  from assms obtain r0 r1 r2 r3 where b: "board = [r0, r1, r2, r3]"
    using length_4_explicit [of board] by (auto simp: grid_def)
  with assms have l: "length r0 = 4" "length r1 = 4" "length r2 = 4" "length r3 = 4"
    by (simp_all add: grid_def)
  obtain a0 a1 a2 a3 where r0: "r0 = [a0, a1, a2, a3]"
    using length_4_explicit [OF l(1)] by blast
  obtain b0 b1 b2 b3 where r1: "r1 = [b0, b1, b2, b3]"
    using length_4_explicit [OF l(2)] by blast
  obtain c0 c1 c2 c3 where r2: "r2 = [c0, c1, c2, c3]"
    using length_4_explicit [OF l(3)] by blast
  obtain d0 d1 d2 d3 where r3: "r3 = [d0, d1, d2, d3]"
    using length_4_explicit [OF l(4)] by blast
  show thesis
    using that b r0 r1 r2 r3 by simp
qed

lemma isValid_explicit:
  assumes "row < 4" "col < 4"
  shows "isValid [[a0, a1, a2, a3], [b0, b1, b2, b3], [c0, c1, c2, c3], [d0, d1, d2, d3]] row col val =
    Inr (\<not> occurs_among_peers [[a0, a1, a2, a3], [b0, b1, b2, b3], [c0, c1, c2, c3], [d0, d1, d2, d3]]
      (row, col) val)"
  using less_4_cases [OF assms(1)] less_4_cases [OF assms(2)]
  by (elim disjE)
    (simp_all add: isValid_def get_cell_def upt_conv_Cons occurs_among_peers_def cells_unfold
      peers_def cell_def)

lemma isValid_grid:
  "grid board \<Longrightarrow> row < SIZE \<Longrightarrow> col < SIZE \<Longrightarrow>
     isValid board row col val = Inr (\<not> occurs_among_peers board (row, col) val)"
  by (erule grid_explicit) (simp only: isValid_explicit)

lemma in_cells: "p \<in> set cells \<longleftrightarrow> fst p < SIZE \<and> snd p < SIZE"
  by (cases p) (auto simp: cells_def image_iff)

lemma grid_row_length: "grid board \<Longrightarrow> r < SIZE \<Longrightarrow> length (board ! r) = SIZE"
  by (simp add: grid_def)

lemma get_cell_grid:
  "grid board \<Longrightarrow> p \<in> set cells \<Longrightarrow> get_cell board (fst p) (snd p) = Inr (cell board p)"
  by (simp add: get_cell_def cell_def in_cells grid_row_length) (simp add: grid_def)

lemma set_cell_grid:
  "grid board \<Longrightarrow> p \<in> set cells \<Longrightarrow> set_cell board (fst p) (snd p) val = Inr (put board p val)"
  by (simp add: set_cell_def put_def in_cells grid_row_length) (simp add: grid_def)

lemma grid_put: "grid board \<Longrightarrow> grid (put board p val)"
proof -
  assume g: "grid board"
  show ?thesis
  proof (cases "fst p < length board")
    case True
    have "set (put board p val) \<subseteq> insert ((board ! fst p)[snd p := val]) (set board)"
      unfolding put_def by (rule set_update_subset_insert)
    moreover have "length ((board ! fst p)[snd p := val]) = SIZE"
      using g True by (simp add: grid_def)
    ultimately show ?thesis
      using g by (auto simp: grid_def put_def)
  next
    case False
    then show ?thesis
      using g by (simp add: put_def list_update_beyond)
  qed
qed

lemma cell_put:
  "grid board \<Longrightarrow> p \<in> set cells \<Longrightarrow>
     cell (put board p val) q = (if q = p then val else cell board q)"
  by (auto simp: cell_def put_def in_cells grid_def nth_list_update prod_eq_iff)

lemma put_put: "put (put board p val) p val' = put board p val'"
  by (cases "fst p < length board") (simp_all add: put_def list_update_beyond)

lemma put_same: "put board p (cell board p) = board"
  by (simp add: put_def cell_def)

lemma grid_ext:
  assumes "grid board" "grid board'" "\<And>p. p \<in> set cells \<Longrightarrow> cell board p = cell board' p"
  shows "board = board'"
proof (rule nth_equalityI)
  show "length board = length board'"
    using assms by (simp add: grid_def)
next
  fix r assume "r < length board"
  then have r: "r < SIZE" using assms by (simp add: grid_def)
  show "board ! r = board' ! r"
  proof (rule nth_equalityI)
    show "length (board ! r) = length (board' ! r)"
      using assms r by (simp add: grid_row_length)
  next
    fix c assume "c < length (board ! r)"
    then have "c < SIZE" using assms r by (simp add: grid_row_length)
    then show "board ! r ! c = board' ! r ! c"
      using assms(3) [of "(r, c)"] r by (simp add: in_cells cell_def)
  qed
qed

lemma peers_sym: "peers p q \<Longrightarrow> peers q p"
  by (auto simp: peers_def)

lemma occurs_among_peers_put:
  "grid board \<Longrightarrow> p \<in> set cells \<Longrightarrow>
     occurs_among_peers (put board p x) p val = occurs_among_peers board p val"
  unfolding occurs_among_peers_def
  by (intro bex_cong refl conj_cong) (auto simp: cell_put peers_def)

section \<open>The constraint checker\<close>

text \<open>The filled grid of the specification's example scenario.\<close>

definition example_grid :: board where
  "example_grid =
     [[Str ''H'', Str ''O'', Str ''L'', Str ''A''],
      [Str ''L'', Str ''A'', Str ''H'', Str ''O''],
      [Str ''O'', Str ''H'', Str ''A'', Str ''L''],
      [Str ''A'', Str ''L'', Str ''O'', Str ''H'']]"

text \<open>
  C3: on a grid, for a position inside it and any value, \<open>isValid\<close> returns false exactly
  when the value sits in a peer of the position, that is in another cell of its row, its
  column or its 2x2 block. The cell itself is left out of the comparison: the result is
  the same whatever the cell holds. \<open>isValid\<close> writes nothing, so its model returns the
  boolean and no board.
\<close>

theorem isValid_false_iff_value_among_peers:
  assumes "grid board" "row < SIZE" "col < SIZE"
  shows "isValid board row col val =
           Inr (\<not> (\<exists>q \<in> set cells. peers (row, col) q \<and> cell board q = val)) \<and>
         isValid (put board (row, col) x) row col val = isValid board row col val"
proof (intro conjI)
  have p: "(row, col) \<in> set cells"
    using assms by (simp add: in_cells)
  show "isValid board row col val =
      Inr (\<not> (\<exists>q \<in> set cells. peers (row, col) q \<and> cell board q = val))"
    using assms by (simp add: isValid_grid occurs_among_peers_def)
  show "isValid (put board (row, col) x) row col val = isValid board row col val"
    using assms p by (simp add: isValid_grid grid_put occurs_among_peers_put)
qed

theorem isValid_false_iff_value_among_peers_witness:
  "grid example_grid \<and> (0::nat) < SIZE \<and> (1::nat) < SIZE \<and>
   isValid example_grid 0 1 (Str ''H'') = Inr False \<and>
   isValid (put example_grid (0, 1) (Str ''H'')) 0 1 (Str ''H'') = Inr False \<and>
   isValid (put example_grid (0, 0) EMPTY) 0 0 (Str ''H'') = Inr True"
proof -
  have g: "grid example_grid"
    by (simp add: grid_def example_grid_def)
  have l: "(0::nat) < SIZE" "(1::nat) < SIZE"
    by simp_all
  have w: "\<exists>q \<in> set cells. peers (0, 1) q \<and> cell example_grid q = Str ''H''"
    by (simp add: cells_unfold peers_def cell_def example_grid_def)
  have n: "\<not> (\<exists>q \<in> set cells. peers (0, 0) q \<and> cell example_grid q = Str ''H'')"
    by (simp add: cells_unfold peers_def cell_def example_grid_def)
  show ?thesis
    using isValid_false_iff_value_among_peers [OF g l(1) l(2), of "Str ''H''" "Str ''H''"]
      isValid_false_iff_value_among_peers [OF g l(1) l(1), of "Str ''H''" EMPTY]
      g w n
    by simp
qed

lemma isValid_missing_row:
  "length board \<le> row \<Longrightarrow> isValid board row col val = Inl TypeError"
  by (simp add: isValid_def get_cell_def upt_conv_Cons)

lemma block_start_beyond:
  "SIZE \<le> col \<Longrightarrow> \<not> col div BLOCK_SIZE * BLOCK_SIZE < SIZE \<and>
     \<not> Suc (col div BLOCK_SIZE * BLOCK_SIZE) < SIZE"
  by arith

lemma isValid_col_beyond_explicit:
  assumes "row < SIZE" "SIZE \<le> col" "val \<noteq> Undefined"
  shows "isValid [[a0, a1, a2, a3], [b0, b1, b2, b3], [c0, c1, c2, c3], [d0, d1, d2, d3]] row col val =
    Inr (val \<notin> set ([[a0, a1, a2, a3], [b0, b1, b2, b3], [c0, c1, c2, c3], [d0, d1, d2, d3]] ! row))"
  using less_4_cases [OF assms(1)] assms(2,3) block_start_beyond [OF assms(2)]
  by (elim disjE) (auto simp: isValid_def get_cell_def upt_conv_Cons)

text \<open>
  C9, as the code has it: \<open>isValid\<close> checks none of its preconditions. On a grid, a row
  index of \<open>SIZE\<close> or more raises \<open>TypeError\<close>, by the read from the missing row, whatever
  the column and the value. A column index of \<open>SIZE\<close> or more, with the row inside the
  grid, returns a boolean: false exactly when the value occurs in that row. The empty
  sentinel as value returns a boolean by the rule of every other value.
\<close>

theorem isValid_checks_no_precondition:
  assumes "grid board"
  shows "(SIZE \<le> row \<longrightarrow> isValid board row col val = Inl TypeError) \<and>
         (row < SIZE \<and> SIZE \<le> col \<and> val \<noteq> Undefined \<longrightarrow>
            isValid board row col val = Inr (val \<notin> set (board ! row))) \<and>
         (row < SIZE \<and> col < SIZE \<longrightarrow>
            isValid board row col EMPTY =
              Inr (\<not> (\<exists>q \<in> set cells. peers (row, col) q \<and> cell board q = EMPTY)))"
proof (intro conjI impI)
  assume "SIZE \<le> row"
  then show "isValid board row col val = Inl TypeError"
    using assms by (simp add: isValid_missing_row grid_def)
next
  assume a: "row < SIZE \<and> SIZE \<le> col \<and> val \<noteq> Undefined"
  then have h: "row < SIZE" "SIZE \<le> col" "val \<noteq> Undefined"
    by simp_all
  from assms obtain a0 a1 a2 a3 b0 b1 b2 b3 c0 c1 c2 c3 d0 d1 d2 d3 where
    b: "board = [[a0, a1, a2, a3], [b0, b1, b2, b3], [c0, c1, c2, c3], [d0, d1, d2, d3]]"
    by (rule grid_explicit)
  show "isValid board row col val = Inr (val \<notin> set (board ! row))"
    unfolding b using h by (rule isValid_col_beyond_explicit)
next
  assume "row < SIZE \<and> col < SIZE"
  then show "isValid board row col EMPTY =
      Inr (\<not> (\<exists>q \<in> set cells. peers (row, col) q \<and> cell board q = EMPTY))"
    using assms by (simp add: isValid_grid occurs_among_peers_def)
qed

theorem isValid_checks_no_precondition_witness:
  "grid example_grid \<and>
   isValid example_grid 4 0 (Str ''H'') = Inl TypeError \<and>
   isValid example_grid 0 4 (Str ''H'') = Inr False \<and>
   isValid example_grid 0 0 EMPTY = Inr True"
proof -
  have g: "grid example_grid"
    by (simp add: grid_def example_grid_def)
  have r: "Str ''H'' \<in> set (example_grid ! 0)"
    by (simp add: example_grid_def)
  have n: "\<not> (\<exists>q \<in> set cells. peers (0, 0) q \<and> cell example_grid q = EMPTY)"
    by (simp add: cells_unfold peers_def cell_def example_grid_def EMPTY_def)
  show ?thesis
    using isValid_checks_no_precondition [OF g, of 4 0 "Str ''H''"]
      isValid_checks_no_precondition [OF g, of 0 4 "Str ''H''"]
      isValid_checks_no_precondition [OF g, of 0 0] g r n
    by simp
qed

text \<open>
  C9 as stated fails: a call with the column outside the grid returns a normal result.
\<close>

theorem isValid_col_out_of_range_counterexample:
  "\<not> (4::nat) < SIZE \<and> isValid example_grid 0 4 (Str ''H'') = Inr False"
  by (simp add: isValid_def get_cell_def upt_conv_Cons example_grid_def)

section \<open>The solution counter\<close>

lemma first_empty_grid:
  "grid board \<Longrightarrow> set ps \<subseteq> set cells \<Longrightarrow>
     first_empty board ps = Inr (find (\<lambda>p. cell board p = EMPTY) ps)"
proof (induction ps)
  case Nil
  then show ?case by simp
next
  case (Cons p ps)
  obtain row col where p: "p = (row, col)" by (cases p)
  have "get_cell board row col = Inr (cell board (row, col))"
    using get_cell_grid [of board p] Cons.prems p by simp
  then show ?case
    using Cons p by simp
qed

lemma first_empty_grid_None:
  "grid board \<Longrightarrow> first_empty board cells = Inr None \<longleftrightarrow> (\<forall>p \<in> set cells. cell board p \<noteq> EMPTY)"
  by (auto simp: first_empty_grid find_None_iff)

lemma first_empty_grid_cases:
  assumes "grid board"
  obtains (full) "first_empty board cells = Inr None" "\<forall>p \<in> set cells. cell board p \<noteq> EMPTY"
  | (hole) row col where "first_empty board cells = Inr (Some (row, col))"
      "(row, col) \<in> set cells" "cell board (row, col) = EMPTY"
proof (cases "find (\<lambda>p. cell board p = EMPTY) cells")
  case None
  then have "first_empty board cells = Inr None"
    using assms by (simp add: first_empty_grid)
  then show ?thesis
    using assms full by (simp add: first_empty_grid_None)
next
  case (Some p)
  obtain row col where p: "p = (row, col)" by (cases p)
  have "p \<in> set cells \<and> cell board p = EMPTY"
    using Some by (auto simp: find_Some_iff)
  then show ?thesis
    using assms hole Some p by (simp add: first_empty_grid)
qed

lemma solveInternal_counter_bound:
  shows "counter \<le> 1 \<Longrightarrow> solveInternal board counter = Inr (b', n) \<Longrightarrow> n \<le> 2"
    and "counter \<le> 1 \<Longrightarrow> count_candidates board row col vals counter = Inr (b', n) \<Longrightarrow> n \<le> 2"
proof (induct board counter and board row col vals counter arbitrary: b' n and b' n
    rule: solveInternal_count_candidates.induct)
  case (1 board counter)
  then show ?case
    by (auto simp: solveInternal.simps split: sum.splits option.splits)
next
  case (2 board row col counter)
  then show ?case
    by (simp add: count_candidates.simps)
next
  case (3 board row col val rest counter)
  note run = "3.prems"(2) [unfolded count_candidates.simps(2)]
  show ?case
  proof (cases "isValid board row col val")
    case (Inl e)
    with run show ?thesis by simp
  next
    case (Inr ok)
    show ?thesis
    proof (cases ok)
      case False
      with run Inr "3.hyps"(3) "3.prems"(1) show ?thesis by auto
    next
      case True
      from run Inr True obtain placed where
        pl: "set_cell board row col val = Inr placed"
        by (cases "set_cell board row col val") auto
      from run Inr True pl obtain returned n1 where
        so: "solveInternal placed counter = Inr (returned, n1)"
        by (cases "solveInternal placed counter") auto
      have n1: "n1 \<le> 2"
        using "3.hyps"(1) [OF Inr _ pl "3.prems"(1) so] True by simp
      from run Inr True pl so obtain undone where
        un: "set_cell returned row col EMPTY = Inr undone"
        by (cases "set_cell returned row col EMPTY") auto
      show ?thesis
      proof (cases "n1 > 1")
        case True
        with run Inr \<open>ok\<close> pl so un n1 show ?thesis by simp
      next
        case False
        then have rest: "count_candidates undone row col rest n1 = Inr (b', n)"
          using run Inr \<open>ok\<close> pl so un by simp
        show ?thesis
          using "3.hyps"(2) [OF Inr _ pl so refl un _ _ rest] \<open>ok\<close> False by simp
      qed
    qed
  qed
qed

lemma solveInternal_returns:
  shows "grid board \<Longrightarrow> \<exists>res. solveInternal board counter = Inr res"
    and "grid board \<Longrightarrow> (row, col) \<in> set cells \<Longrightarrow>
           \<exists>res. count_candidates board row col vals counter = Inr res"
proof (induct board counter and board row col vals counter
    rule: solveInternal_count_candidates.induct)
  case (1 board counter)
  from "1.prems" show ?case
  proof (cases rule: first_empty_grid_cases)
    case full
    then show ?thesis by (simp add: solveInternal.simps)
  next
    case (hole row col)
    then show ?thesis
      using "1.hyps" [OF hole(1) refl refl] "1.prems" by (simp add: solveInternal.simps)
  qed
next
  case (2 board row col counter)
  then show ?case
    by (simp add: count_candidates.simps)
next
  case (3 board row col val rest counter)
  have v: "isValid board row col val = Inr (\<not> occurs_among_peers board (row, col) val)"
    using "3.prems" by (simp add: isValid_grid in_cells)
  have pl: "set_cell board row col val = Inr (put board (row, col) val)"
    using set_cell_grid [OF "3.prems"] by simp
  show ?case
  proof (cases "occurs_among_peers board (row, col) val")
    case True
    then show ?thesis
      using "3.hyps"(3) [OF v] "3.prems" v by (simp add: count_candidates.simps)
  next
    case False
    have g1: "grid (put board (row, col) val)"
      using "3.prems" by (simp add: grid_put)
    obtain returned n1 where
      so: "solveInternal (put board (row, col) val) counter = Inr (returned, n1)"
      using "3.hyps"(1) [OF v _ pl g1] False by auto
    have same: "returned = put board (row, col) val"
      using so by (rule solveInternal_restores)
    have un: "set_cell returned row col EMPTY = Inr (put board (row, col) EMPTY)"
      using set_cell_grid [OF g1 "3.prems"(2), of EMPTY] same by (simp add: put_put)
    have "\<exists>res. count_candidates (put board (row, col) EMPTY) row col rest n1 = Inr res"
      if "\<not> 1 < n1"
      using "3.hyps"(2) [OF v _ pl so refl un that] False "3.prems" by (simp add: grid_put)
    then show ?thesis
      using v pl so un False by (auto simp: count_candidates.simps)
  qed
qed

lemma grid_deep_copy: "grid board \<Longrightarrow> grid (deep_copy board)"
  by (simp add: grid_def deep_copy_def)

text \<open>
  C10: whatever the board, a count that \<open>countSolutions\<close> returns is 0, 1 or 2: no call of
  \<open>solveInternal\<close> starts with the counter above 1, and one call adds at most one more
  before the pruning exit is taken on the way back. On a grid the call does return.
\<close>

theorem countSolutions_at_most_2:
  "(\<forall>n. countSolutions board = Inr n \<longrightarrow> n \<le> 2) \<and>
   (grid board \<longrightarrow> (\<exists>n. countSolutions board = Inr n \<and> n \<le> 2))"
proof -
  have bound: "n \<le> 2" if "countSolutions board = Inr n" for n
    using that solveInternal_counter_bound(1) [of 0 "deep_copy board" _ n]
    by (auto simp: countSolutions_def split: sum.splits)
  moreover have "\<exists>n. countSolutions board = Inr n" if "grid board"
    using solveInternal_returns(1) [OF grid_deep_copy [OF that], of 0]
    by (auto simp: countSolutions_def)
  ultimately show ?thesis by blast
qed

theorem countSolutions_at_most_2_witness:
  "grid (replicate SIZE (replicate SIZE EMPTY)) \<and>
   (\<exists>n. countSolutions (replicate SIZE (replicate SIZE EMPTY)) = Inr n \<and> n \<le> 2) \<and>
   countSolutions (replicate SIZE (replicate SIZE EMPTY)) = Inr 2"
proof -
  have g: "grid (replicate SIZE (replicate SIZE EMPTY))"
    by (simp add: grid_def)
  have "countSolutions (replicate SIZE (replicate SIZE EMPTY)) = Inr 2"
    by code_simp
  then show ?thesis
    using countSolutions_at_most_2 [of "replicate SIZE (replicate SIZE EMPTY)"] g by simp
qed

section \<open>Completions of a board with a hole\<close>

lemma peers_irrefl: "\<not> peers p p"
  by (simp add: peers_def)

lemma consistentD:
  "consistent board \<Longrightarrow> p \<in> set cells \<Longrightarrow> q \<in> set cells \<Longrightarrow> peers p q \<Longrightarrow>
     cell board p \<noteq> EMPTY \<Longrightarrow> cell board p \<noteq> cell board q"
  by (simp add: consistent_def)

lemma symbols_ok_put:
  "grid board \<Longrightarrow> p \<in> set cells \<Longrightarrow> symbols_ok board \<Longrightarrow> val = EMPTY \<or> val \<in> set LETTERS \<Longrightarrow>
     symbols_ok (put board p val)"
  by (simp add: symbols_ok_def cell_put)

lemma extends_put:
  assumes "grid board" "p \<in> set cells" "cell board p = EMPTY"
  shows "extends (put board p val) full \<longleftrightarrow> extends board full \<and> (val \<noteq> EMPTY \<longrightarrow> cell full p = val)"
  using assms by (auto simp: extends_def cell_put)

lemma completions_put_subset:
  assumes "grid board" "p \<in> set cells" "cell board p = EMPTY"
  shows "completions (put board p val) \<subseteq> completions board"
  using assms by (auto simp: completions_def extends_put)

lemma completions_at_hole:
  assumes "grid board" "p \<in> set cells" "cell board p = EMPTY"
  shows "completions board = (\<Union>val \<in> set LETTERS. completions (put board p val))"
proof
  show "completions board \<subseteq> (\<Union>val \<in> set LETTERS. completions (put board p val))"
  proof
    fix full assume f: "full \<in> completions board"
    then have "cell full p \<in> set LETTERS"
      using assms(2) by (simp add: completions_def solved_def filled_def)
    moreover have "full \<in> completions (put board p (cell full p))"
      using f assms by (simp add: completions_def extends_put)
    ultimately show "full \<in> (\<Union>val \<in> set LETTERS. completions (put board p val))"
      by blast
  qed
  show "(\<Union>val \<in> set LETTERS. completions (put board p val)) \<subseteq> completions board"
    using completions_put_subset [OF assms] by blast
qed

lemma completions_put_disjoint:
  assumes "grid board" "p \<in> set cells" "cell board p = EMPTY"
    and "val \<in> set LETTERS" "val' \<in> set LETTERS" "val \<noteq> val'"
  shows "completions (put board p val) \<inter> completions (put board p val') = {}"
  using assms EMPTY_notin_LETTERS by (auto simp: completions_def extends_put)

lemma completions_conflict:
  assumes "grid board" "p \<in> set cells" "cell board p = EMPTY" "val \<in> set LETTERS"
    and "occurs_among_peers board p val"
  shows "completions (put board p val) = {}"
proof (rule ccontr)
  assume "completions (put board p val) \<noteq> {}"
  then obtain full where f: "solved full" "extends (put board p val) full"
    by (auto simp: completions_def)
  from assms(5) obtain q where q: "q \<in> set cells" "peers p q" "cell board q = val"
    by (auto simp: occurs_among_peers_def)
  have ne: "val \<noteq> EMPTY"
    using assms(4) EMPTY_notin_LETTERS by auto
  have "q \<noteq> p"
    using q(2) by (auto simp: peers_def)
  then have "cell (put board p val) q = val" "cell (put board p val) p = val"
    using assms q by (simp_all add: cell_put)
  then have "cell full q = val" "cell full p = val"
    using f(2) q(1) assms(2) ne by (auto simp: extends_def)
  moreover have "cell full p \<noteq> cell full q"
    using f(1) q assms(2) ne \<open>cell full p = val\<close> by (intro consistentD) (simp_all add: solved_def)
  ultimately show False by simp
qed

lemma consistent_put:
  assumes "grid board" "p \<in> set cells" "consistent board"
    and "\<not> occurs_among_peers board p val"
  shows "consistent (put board p val)"
  unfolding consistent_def
proof (intro ballI impI)
  fix a b assume a: "a \<in> set cells" and b: "b \<in> set cells"
    and h: "peers a b \<and> cell (put board p val) a \<noteq> EMPTY"
  then have ab: "a \<noteq> b" by (auto simp: peers_def)
  show "cell (put board p val) a \<noteq> cell (put board p val) b"
  proof (cases "a = p")
    case True
    then have "cell board b \<noteq> val"
      using assms(4) b h by (auto simp: occurs_among_peers_def)
    then show ?thesis
      using True ab assms by (simp add: cell_put)
  next
    case False
    show ?thesis
    proof (cases "b = p")
      case True
      then have "peers p a" using h by (simp add: peers_sym)
      then have "cell board a \<noteq> val"
        using assms(4) a by (auto simp: occurs_among_peers_def)
      then show ?thesis
        using True False assms by (simp add: cell_put)
    next
      case nb: False
      have "cell board a \<noteq> cell board b"
        using False assms a b h by (intro consistentD) (simp_all add: cell_put)
      then show ?thesis
        using False nb assms by (simp add: cell_put)
    qed
  qed
qed

lemma completions_full:
  assumes "grid board" "symbols_ok board" "consistent board"
    and "\<forall>p \<in> set cells. cell board p \<noteq> EMPTY"
  shows "completions board = {board}"
proof
  have "solved board"
    using assms by (auto simp: solved_def filled_def symbols_ok_def)
  then show "{board} \<subseteq> completions board"
    by (simp add: completions_def extends_def)
  show "completions board \<subseteq> {board}"
  proof
    fix full assume "full \<in> completions board"
    then have "grid full" "\<And>p. p \<in> set cells \<Longrightarrow> cell full p = cell board p"
      using assms(4) by (auto simp: completions_def solved_def extends_def)
    then have "full = board"
      using assms(1) by (intro grid_ext) simp_all
    then show "full \<in> {board}" by simp
  qed
qed

lemma empties_put_less:
  assumes "grid board" "p \<in> set cells" "cell board p = EMPTY" "val \<noteq> EMPTY"
  shows "empties (put board p val) < empties board"
proof -
  obtain row col where p: "p = (row, col)" by (cases p)
  have s: "set_cell board row col val = Inr (put board p val)"
    using set_cell_grid [OF assms(1,2)] p by simp
  have "empties (put board p val) = other_empties board row col"
    using empties_split [of "put board p val" row col] other_empties_set_cell [OF s]
      get_set_same [OF s] assms(4) by simp
  moreover have "empties board = other_empties board row col + 1"
    using empties_split [of board row col] get_cell_grid [OF assms(1,2)] assms(2,3) p by simp
  ultimately show ?thesis by simp
qed

section \<open>The solver\<close>

text \<open>A grid over the alphabet whose filled cells satisfy the constraints.\<close>

definition valid_grid :: "board \<Rightarrow> bool" where
  "valid_grid board \<longleftrightarrow> grid board \<and> symbols_ok board \<and> consistent board"

lemma valid_grid_put:
  "valid_grid board \<Longrightarrow> p \<in> set cells \<Longrightarrow> val \<in> set LETTERS \<Longrightarrow>
     \<not> occurs_among_peers board p val \<Longrightarrow> valid_grid (put board p val)"
  by (simp add: valid_grid_def grid_put symbols_ok_put consistent_put)

lemma try_candidates_correct:
  assumes IH: "\<And>b g. valid_grid b \<Longrightarrow> empties b < empties board \<Longrightarrow>
      \<exists>found b' g'. solve b randomized g = Inr (found, b', g') \<and>
        (found \<longleftrightarrow> completions b \<noteq> {}) \<and> (found \<longrightarrow> b' \<in> completions b) \<and>
        (\<not> found \<longrightarrow> b' = b)"
    and v: "valid_grid board" and p: "(row, col) \<in> set cells"
    and e: "cell board (row, col) = EMPTY"
  shows "set vals \<subseteq> set LETTERS \<Longrightarrow>
    \<exists>found b' g'. try_candidates board row col vals randomized g = Inr (found, b', g') \<and>
      (found \<longleftrightarrow> (\<exists>val \<in> set vals. completions (put board (row, col) val) \<noteq> {})) \<and>
      (found \<longrightarrow> b' \<in> (\<Union>val \<in> set vals. completions (put board (row, col) val))) \<and>
      (\<not> found \<longrightarrow> b' = board)"
proof (induction vals arbitrary: g)
  case Nil
  show ?case by (auto simp: try_candidates.simps)
next
  case (Cons val rest)
  have g: "grid board" using v by (simp add: valid_grid_def)
  have letter: "val \<in> set LETTERS" and rest: "set rest \<subseteq> set LETTERS"
    using Cons.prems by simp_all
  have iv: "isValid board row col val = Inr (\<not> occurs_among_peers board (row, col) val)"
    using g p by (simp add: isValid_grid in_cells)
  show ?case
  proof (cases "occurs_among_peers board (row, col) val")
    case True
    have none: "completions (put board (row, col) val) = {}"
      using g p e letter True by (rule completions_conflict)
    from Cons.IH [OF rest, of g] obtain found b' g' where
      r: "try_candidates board row col rest randomized g = Inr (found, b', g')"
        "found \<longleftrightarrow> (\<exists>val \<in> set rest. completions (put board (row, col) val) \<noteq> {})"
        "found \<longrightarrow> b' \<in> (\<Union>val \<in> set rest. completions (put board (row, col) val))"
        "\<not> found \<longrightarrow> b' = board"
      by blast
    have "try_candidates board row col (val # rest) randomized g = Inr (found, b', g')"
      using iv True r(1) by (simp add: try_candidates.simps)
    then show ?thesis
      using r(2,3,4) none by auto
  next
    case False
    let ?placed = "put board (row, col) val"
    have pl: "set_cell board row col val = Inr ?placed"
      using set_cell_grid [OF g p] by simp
    have vp: "valid_grid ?placed"
      using v p letter False by (rule valid_grid_put)
    have "val \<noteq> EMPTY"
      using letter EMPTY_notin_LETTERS by auto
    then have less: "empties ?placed < empties board"
      using g p e by (intro empties_put_less)
    from IH [OF vp less, of g] obtain found1 b1 g1 where
      s: "solve ?placed randomized g = Inr (found1, b1, g1)"
        "found1 \<longleftrightarrow> completions ?placed \<noteq> {}"
        "found1 \<longrightarrow> b1 \<in> completions ?placed"
        "\<not> found1 \<longrightarrow> b1 = ?placed"
      by blast
    show ?thesis
    proof (cases found1)
      case True
      have "try_candidates board row col (val # rest) randomized g = Inr (True, b1, g1)"
        using iv False pl s(1) True by (simp add: try_candidates.simps)
      then show ?thesis
        using s(2,3) True by auto
    next
      case nf: False
      have un: "set_cell b1 row col EMPTY = Inr board"
        using set_cell_grid [OF grid_put [OF g] p, of "(row, col)" val EMPTY] s(4) nf e
          put_same [of board "(row, col)"]
        by (simp add: put_put)
      from Cons.IH [OF rest, of g1] obtain found b' g' where
        r: "try_candidates board row col rest randomized g1 = Inr (found, b', g')"
          "found \<longleftrightarrow> (\<exists>val \<in> set rest. completions (put board (row, col) val) \<noteq> {})"
          "found \<longrightarrow> b' \<in> (\<Union>val \<in> set rest. completions (put board (row, col) val))"
          "\<not> found \<longrightarrow> b' = board"
        by blast
      have "try_candidates board row col (val # rest) randomized g = Inr (found, b', g')"
        using iv False pl s(1) nf un r(1) by (simp add: try_candidates.simps)
      then show ?thesis
        using r(2,3,4) s(2) nf by auto
    qed
  qed
qed

lemma solve_correct:
  "valid_grid board \<Longrightarrow>
     \<exists>found b' g'. solve board randomized g = Inr (found, b', g') \<and>
       (found \<longleftrightarrow> completions board \<noteq> {}) \<and> (found \<longrightarrow> b' \<in> completions board) \<and>
       (\<not> found \<longrightarrow> b' = board)"
proof (induction "empties board" arbitrary: board g rule: less_induct)
  case less
  have g: "grid board" using less.prems by (simp add: valid_grid_def)
  from g show ?case
  proof (cases rule: first_empty_grid_cases)
    case full
    have "completions board = {board}"
      using less.prems full(2) by (intro completions_full) (simp_all add: valid_grid_def)
    then show ?thesis
      using full(1) by (auto simp: solve.simps)
  next
    case (hole row col)
    obtain candidates g1 where
      c: "(if randomized then shuffle LETTERS g else (LETTERS, g)) = (candidates, g1)"
      by (cases "if randomized then shuffle LETTERS g else (LETTERS, g)")
    have sc: "set candidates = set LETTERS"
      using set_candidates [of randomized g] c by simp
    have "\<exists>found b' g'. try_candidates board row col candidates randomized g1 = Inr (found, b', g') \<and>
      (found \<longleftrightarrow> (\<exists>val \<in> set candidates. completions (put board (row, col) val) \<noteq> {})) \<and>
      (found \<longrightarrow> b' \<in> (\<Union>val \<in> set candidates. completions (put board (row, col) val))) \<and>
      (\<not> found \<longrightarrow> b' = board)"
      using less.hyps less.prems hole(2,3) sc
      by (intro try_candidates_correct) simp_all
    moreover have "completions board = (\<Union>val \<in> set candidates. completions (put board (row, col) val))"
      using completions_at_hole [OF g hole(2,3)] sc by simp
    moreover have "solve board randomized g = try_candidates board row col candidates randomized g1"
      using hole(1) c by (simp add: solve.simps)
    ultimately show ?thesis
      by auto
  qed
qed

lemma solve_unrandomized:
  shows "\<not> randomized \<Longrightarrow> solve board randomized g = Inr (found, b', g') \<Longrightarrow>
           g' = g \<and> solve board randomized h = Inr (found, b', h)"
    and "\<not> randomized \<Longrightarrow> try_candidates board row col vals randomized g = Inr (found, b', g') \<Longrightarrow>
           g' = g \<and> try_candidates board row col vals randomized h = Inr (found, b', h)"
proof (induct board randomized g and board row col vals randomized g
    arbitrary: found b' g' h and found b' g' h rule: solve_try_candidates.induct)
  case (1 board randomized g)
  note run = "1.prems"(2) [unfolded solve.simps]
  show ?case
  proof (cases "first_empty board cells")
    case (Inl e)
    with run show ?thesis by simp
  next
    case (Inr hole)
    show ?thesis
    proof (cases hole)
      case None
      with run Inr show ?thesis by (simp add: solve.simps)
    next
      case (Some p)
      obtain row col where p: "p = (row, col)" by (cases p)
      have fe: "first_empty board cells = Inr (Some (row, col))"
        using Inr Some p by simp
      have "try_candidates board row col LETTERS randomized g = Inr (found, b', g')"
        using run fe "1.prems"(1) by simp
      then have "g' = g \<and> try_candidates board row col LETTERS randomized h = Inr (found, b', h)"
        using "1.hyps" [OF fe refl refl refl, of LETTERS g] "1.prems"(1) by simp
      then show ?thesis
        using fe "1.prems"(1) by (simp add: solve.simps)
    qed
  qed
next
  case (2 board row col randomized g)
  then show ?case by (simp add: try_candidates.simps)
next
  case (3 board row col val rest randomized g)
  note run = "3.prems"(2) [unfolded try_candidates.simps(2)]
  show ?case
  proof (cases "isValid board row col val")
    case (Inl e)
    with run show ?thesis by simp
  next
    case (Inr ok)
    show ?thesis
    proof (cases ok)
      case False
      then have "try_candidates board row col rest randomized g = Inr (found, b', g')"
        using run Inr by simp
      then have "g' = g \<and> try_candidates board row col rest randomized h = Inr (found, b', h)"
        using "3.hyps"(3) [OF Inr _ "3.prems"(1)] False by simp
      then show ?thesis
        using Inr False by (simp add: try_candidates.simps)
    next
      case True
      from run Inr True obtain placed where
        pl: "set_cell board row col val = Inr placed"
        by (cases "set_cell board row col val") auto
      from run Inr True pl obtain found1 b1 g1 where
        so: "solve placed randomized g = Inr (found1, b1, g1)"
        by (cases "solve placed randomized g") auto
      have s1: "g1 = g \<and> solve placed randomized h = Inr (found1, b1, h)"
        using "3.hyps"(1) [OF Inr _ pl "3.prems"(1) so] True by simp
      show ?thesis
      proof (cases found1)
        case f: True
        then show ?thesis
          using run Inr True pl so s1 by (simp add: try_candidates.simps)
      next
        case nf: False
        from run Inr True pl so nf obtain undone where
          un: "set_cell b1 row col EMPTY = Inr undone"
          by (cases "set_cell b1 row col EMPTY") auto
        have "try_candidates undone row col rest randomized g1 = Inr (found, b', g')"
          using run Inr True pl so nf un by simp
        then have "g' = g1 \<and> try_candidates undone row col rest randomized h = Inr (found, b', h)"
          using "3.hyps"(2) [OF Inr _ pl so refl _ refl un "3.prems"(1)] True nf by simp
        then show ?thesis
          using Inr True pl s1 nf un by (simp add: try_candidates.simps)
      qed
    qed
  qed
qed

lemma solved_example_grid: "solved example_grid"
  by code_simp

lemma solve_empty_grid:
  "solve (replicate SIZE (replicate SIZE EMPTY)) False g = Inr (True, example_grid, g)"
proof -
  have "(case solve (replicate SIZE (replicate SIZE EMPTY)) False (\<lambda>k. 0) of
           Inl e \<Rightarrow> None | Inr (found, b, g) \<Rightarrow> Some (found, b)) = Some (True, example_grid)"
    by code_simp
  then obtain g0 where
    "solve (replicate SIZE (replicate SIZE EMPTY)) False (\<lambda>k. 0) = Inr (True, example_grid, g0)"
    by (auto split: sum.splits)
  then show ?thesis
    using solve_unrandomized(1) [of False _ "\<lambda>k. 0" True example_grid g0 g] by simp
qed

text \<open>
  Two boards for the solver: the example grid with two cells blanked, and a consistent
  board that no solved grid extends (the last cell of the first row can only take
  \<open>A\<close>, which sits below it).
\<close>

definition two_holes :: board where
  "two_holes = put (put example_grid (2, 1) EMPTY) (0, 0) EMPTY"

definition dead_end :: board where
  "dead_end =
     [[Str ''H'', Str ''O'', Str ''L'', EMPTY],
      [EMPTY, EMPTY, EMPTY, Str ''A''],
      [EMPTY, EMPTY, EMPTY, EMPTY],
      [EMPTY, EMPTY, EMPTY, EMPTY]]"

text \<open>
  C4: on a grid over the alphabet whose filled cells satisfy the constraints, \<open>solve\<close>
  returns, in either mode and whatever the random source. It returns true exactly when
  some solved grid agrees with the board on its filled cells; then the board it leaves is
  such a solved grid. When it returns false the board is as it was before the call.
\<close>

theorem solve_true_iff_completion_exists:
  assumes "grid board" "symbols_ok board" "consistent board"
  shows "\<exists>found b' g'. solve board randomized g = Inr (found, b', g') \<and>
           (found \<longleftrightarrow> (\<exists>full. solved full \<and> extends board full)) \<and>
           (found \<longrightarrow> solved b' \<and> extends board b') \<and>
           (\<not> found \<longrightarrow> b' = board)"
  using solve_correct [of board randomized g] assms
  by (simp add: valid_grid_def completions_def)

theorem solve_true_iff_completion_exists_witness:
  "grid two_holes \<and> symbols_ok two_holes \<and> consistent two_holes \<and>
   (\<exists>g'. solve two_holes True (\<lambda>k. 1 / 3) = Inr (True, example_grid, g')) \<and>
   solved example_grid \<and> extends two_holes example_grid \<and>
   grid dead_end \<and> symbols_ok dead_end \<and> consistent dead_end \<and>
   (\<exists>g'. solve dead_end False (\<lambda>k. 0) = Inr (False, dead_end, g')) \<and>
   \<not> (\<exists>full. solved full \<and> extends dead_end full)"
proof -
  have a: "grid two_holes" "symbols_ok two_holes" "consistent two_holes"
    by code_simp+
  have b: "grid dead_end" "symbols_ok dead_end" "consistent dead_end"
    by code_simp+
  have "(case solve two_holes True (\<lambda>k. 1 / 3) of
           Inl e \<Rightarrow> None | Inr (found, b, g) \<Rightarrow> Some (found, b)) = Some (True, example_grid)"
    by code_simp
  then have r1: "\<exists>g'. solve two_holes True (\<lambda>k. 1 / 3) = Inr (True, example_grid, g')"
    by (auto split: sum.splits)
  have "(case solve dead_end False (\<lambda>k. 0) of
           Inl e \<Rightarrow> None | Inr (found, b, g) \<Rightarrow> Some (found, b)) = Some (False, dead_end)"
    by code_simp
  then have r2: "\<exists>g'. solve dead_end False (\<lambda>k. 0) = Inr (False, dead_end, g')"
    by (auto split: sum.splits)
  show ?thesis
    using solve_true_iff_completion_exists [OF a, of True "\<lambda>k. 1 / 3"]
      solve_true_iff_completion_exists [OF b, of False "\<lambda>k. 0"] a b r1 r2
    by auto
qed

text \<open>
  C8: on the all-empty grid \<open>solve\<close> without randomization returns true and leaves the
  example grid, which is solved; the random source is not consulted, so the outcome is the
  same in every call.
\<close>

theorem solve_empty_grid_deterministic:
  "solve (replicate SIZE (replicate SIZE EMPTY)) False g = Inr (True, example_grid, g) \<and>
   solve (replicate SIZE (replicate SIZE EMPTY)) False h = Inr (True, example_grid, h) \<and>
   solved example_grid"
  by (simp add: solve_empty_grid solved_example_grid)

theorem solve_empty_grid_deterministic_witness:
  "solve (replicate SIZE (replicate SIZE EMPTY)) False (\<lambda>k. 0) = Inr (True, example_grid, \<lambda>k. 0) \<and>
   solve (replicate SIZE (replicate SIZE EMPTY)) False (\<lambda>k. 1 / 2) =
     Inr (True, example_grid, \<lambda>k. 1 / 2) \<and>
   solved example_grid"
  using solve_empty_grid_deterministic [of "\<lambda>k. 0" "\<lambda>k. 1 / 2"] by simp

section \<open>Full boards\<close>

lemma count_list_distinct: "distinct xs \<Longrightarrow> x \<in> set xs \<Longrightarrow> count_list xs x = 1"
  by (induction xs) auto

lemma units_shape:
  "\<forall>u \<in> set units. length u = SIZE \<and> distinct u \<and> set u \<subseteq> set cells \<and>
     (\<forall>p \<in> set u. \<forall>q \<in> set u. p \<noteq> q \<longrightarrow> peers p q)"
  by code_simp

lemma card_LETTERS: "card (set LETTERS) = 4"
  by (simp add: LETTERS_def)

lemma solved_each_letter_once:
  assumes "solved board"
  shows "each_letter_once board"
  unfolding each_letter_once_def
proof (intro ballI)
  fix u v assume u: "u \<in> set units" and v: "v \<in> set LETTERS"
  have shape: "length u = SIZE" "distinct u" "set u \<subseteq> set cells"
    "\<And>p q. p \<in> set u \<Longrightarrow> q \<in> set u \<Longrightarrow> p \<noteq> q \<Longrightarrow> peers p q"
    using units_shape u by blast+
  have letters: "cell board p \<in> set LETTERS" if "p \<in> set u" for p
    using assms shape(3) that by (auto simp: solved_def filled_def)
  have "inj_on (cell board) (set u)"
  proof (rule inj_onI)
    fix p q assume pq: "p \<in> set u" "q \<in> set u" "cell board p = cell board q"
    show "p = q"
    proof (rule ccontr)
      assume "p \<noteq> q"
      then have "peers p q" using pq shape(4) by simp
      moreover have "cell board p \<noteq> EMPTY"
        using letters [OF pq(1)] EMPTY_notin_LETTERS by auto
      ultimately have "cell board p \<noteq> cell board q"
        using assms pq shape(3) by (intro consistentD) (auto simp: solved_def)
      then show False using pq(3) by simp
    qed
  qed
  then have d: "distinct (map (cell board) u)"
    using shape(2) by (simp add: distinct_map)
  have sub: "set (map (cell board) u) \<subseteq> set LETTERS"
    using letters by auto
  have "card (set (map (cell board) u)) = length (map (cell board) u)"
    using d by (rule distinct_card)
  then have "card (set (map (cell board) u)) = card (set LETTERS)"
    using shape(1) card_LETTERS by simp
  then have "set (map (cell board) u) = set LETTERS"
    using sub by (intro card_subset_eq) simp_all
  then show "count_list (map (cell board) u) v = 1"
    using d v by (intro count_list_distinct) simp_all
qed

lemma valid_empty_grid: "valid_grid (replicate SIZE (replicate SIZE EMPTY))"
  by code_simp

lemma extends_empty_grid: "extends (replicate SIZE (replicate SIZE EMPTY)) full"
  by (auto simp: extends_def cell_def in_cells)

lemma generateFullBoard_solved:
  "\<exists>board g'. generateFullBoard g = Inr (board, g') \<and> solved board"
proof -
  have "example_grid \<in> completions (replicate SIZE (replicate SIZE EMPTY))"
    by (simp add: completions_def solved_example_grid extends_empty_grid)
  then have "completions (replicate SIZE (replicate SIZE EMPTY)) \<noteq> {}"
    by blast
  then show ?thesis
    using solve_correct [OF valid_empty_grid, of True g]
    by (auto simp: generateFullBoard_def completions_def)
qed

text \<open>
  C5: whatever the random source, \<open>generateFullBoard\<close> returns a board, and the board is a
  grid with a letter in every cell in which every row, every column and every 2x2 block
  holds each of the four letters exactly once.
\<close>

theorem generateFullBoard_each_letter_once:
  "\<exists>board g'. generateFullBoard g = Inr (board, g') \<and> grid board \<and> filled board \<and>
     each_letter_once board"
  using generateFullBoard_solved [of g] solved_each_letter_once
  by (auto simp: solved_def)

theorem generateFullBoard_each_letter_once_witness:
  "\<exists>g'. generateFullBoard (\<lambda>k. real k / 7) =
      Inr ([[Str ''O'', Str ''H'', Str ''L'', Str ''A''],
            [Str ''A'', Str ''L'', Str ''H'', Str ''O''],
            [Str ''H'', Str ''O'', Str ''A'', Str ''L''],
            [Str ''L'', Str ''A'', Str ''O'', Str ''H'']], g') \<and>
     each_letter_once
       [[Str ''O'', Str ''H'', Str ''L'', Str ''A''],
        [Str ''A'', Str ''L'', Str ''H'', Str ''O''],
        [Str ''H'', Str ''O'', Str ''A'', Str ''L''],
        [Str ''L'', Str ''A'', Str ''O'', Str ''H'']]"
proof -
  have "(case generateFullBoard (\<lambda>k. real k / 7) of Inl e \<Rightarrow> None | Inr (b, g) \<Rightarrow> Some b) =
      Some [[Str ''O'', Str ''H'', Str ''L'', Str ''A''],
            [Str ''A'', Str ''L'', Str ''H'', Str ''O''],
            [Str ''H'', Str ''O'', Str ''A'', Str ''L''],
            [Str ''L'', Str ''A'', Str ''O'', Str ''H'']]"
    by code_simp
  then show ?thesis
    using generateFullBoard_each_letter_once [of "\<lambda>k. real k / 7"]
    by (auto split: sum.splits)
qed

section \<open>Counting completions\<close>

lemma finite_filled_grids: "finite {full. grid full \<and> filled full}"
proof -
  let ?rows = "{row. set row \<subseteq> set LETTERS \<and> length row = SIZE}"
  have "finite ?rows"
    by (rule finite_lists_length_eq) simp
  then have fin: "finite {full. set full \<subseteq> ?rows \<and> length full = SIZE}"
    by (rule finite_lists_length_eq)
  have "{full. grid full \<and> filled full} \<subseteq> {full. set full \<subseteq> ?rows \<and> length full = SIZE}"
  proof (intro subsetI CollectI conjI)
    fix full assume "full \<in> {full. grid full \<and> filled full}"
    then show "length full = SIZE" by (simp add: grid_def)
  next
    fix full row assume "full \<in> {full. grid full \<and> filled full}" "row \<in> set full"
    then show "length row = SIZE" by (simp add: grid_def)
  next
    fix full row v
    assume "full \<in> {full. grid full \<and> filled full}" and row: "row \<in> set full"
      and "v \<in> set row"
    then have g: "grid full" and f: "filled full" by simp_all
    obtain c where c: "c < length row" "v = row ! c"
      using \<open>v \<in> set row\<close> by (auto simp: in_set_conv_nth)
    from row obtain r where r: "r < length full" "row = full ! r"
      by (auto simp: in_set_conv_nth)
    have "(r, c) \<in> set cells"
      using r c g row by (simp add: in_cells grid_def)
    then have "cell full (r, c) \<in> set LETTERS"
      using f by (simp add: filled_def)
    then show "v \<in> set LETTERS"
      using r c by (simp add: cell_def)
  qed
  then show ?thesis
    using fin by (rule finite_subset)
qed

lemma finite_completions: "finite (completions board)"
  by (rule finite_subset [OF _ finite_filled_grids]) (auto simp: completions_def solved_def)

lemma distinct_LETTERS: "distinct LETTERS"
  by (simp add: LETTERS_def)

lemma card_completions_at_hole:
  assumes "grid board" "p \<in> set cells" "cell board p = EMPTY"
  shows "card (completions board) = (\<Sum>val\<leftarrow>LETTERS. card (completions (put board p val)))"
proof -
  have "card (completions board) = card (\<Union>val \<in> set LETTERS. completions (put board p val))"
    using completions_at_hole [OF assms] by simp
  also have "\<dots> = (\<Sum>val \<in> set LETTERS. card (completions (put board p val)))"
    using completions_put_disjoint [OF assms]
    by (intro card_UN_disjoint) (simp_all add: finite_completions)
  also have "\<dots> = (\<Sum>val\<leftarrow>LETTERS. card (completions (put board p val)))"
    using distinct_LETTERS by (simp add: sum_list_distinct_conv_sum_set)
  finally show ?thesis .
qed

lemma count_candidates_correct:
  assumes IH: "\<And>b n. valid_grid b \<Longrightarrow> empties b < empties board \<Longrightarrow> n \<le> 1 \<Longrightarrow>
      solveInternal b n = Inr (b, min 2 (n + card (completions b)))"
    and v: "valid_grid board" and p: "(row, col) \<in> set cells"
    and e: "cell board (row, col) = EMPTY"
  shows "set vals \<subseteq> set LETTERS \<Longrightarrow> n \<le> 1 \<Longrightarrow>
    count_candidates board row col vals n =
      Inr (board, min 2 (n + (\<Sum>val\<leftarrow>vals. card (completions (put board (row, col) val)))))"
proof (induction vals arbitrary: n)
  case Nil
  then show ?case by (simp add: count_candidates.simps)
next
  case (Cons val rest)
  have g: "grid board" using v by (simp add: valid_grid_def)
  have letter: "val \<in> set LETTERS" and rest: "set rest \<subseteq> set LETTERS"
    using Cons.prems by simp_all
  have iv: "isValid board row col val = Inr (\<not> occurs_among_peers board (row, col) val)"
    using g p by (simp add: isValid_grid in_cells)
  show ?case
  proof (cases "occurs_among_peers board (row, col) val")
    case True
    have "completions (put board (row, col) val) = {}"
      using g p e letter True by (rule completions_conflict)
    then show ?thesis
      using iv True Cons.IH [OF rest Cons.prems(2)] by (simp add: count_candidates.simps)
  next
    case False
    let ?placed = "put board (row, col) val"
    have pl: "set_cell board row col val = Inr ?placed"
      using set_cell_grid [OF g p] by simp
    have vp: "valid_grid ?placed"
      using v p letter False by (rule valid_grid_put)
    have "val \<noteq> EMPTY"
      using letter EMPTY_notin_LETTERS by auto
    then have less: "empties ?placed < empties board"
      using g p e by (intro empties_put_less)
    have so: "solveInternal ?placed n = Inr (?placed, min 2 (n + card (completions ?placed)))"
      using IH [OF vp less Cons.prems(2)] .
    have un: "set_cell ?placed row col EMPTY = Inr board"
      using set_cell_grid [OF grid_put [OF g] p, of "(row, col)" val EMPTY] e
        put_same [of board "(row, col)"]
      by (simp add: put_put)
    show ?thesis
    proof (cases "1 < min 2 (n + card (completions ?placed))")
      case True
      then show ?thesis
        using iv False pl so un by (simp add: count_candidates.simps)
    next
      case small: False
      then have le: "min 2 (n + card (completions ?placed)) \<le> 1" by simp
      have "count_candidates board row col rest (min 2 (n + card (completions ?placed))) =
        Inr (board, min 2 (min 2 (n + card (completions ?placed)) +
          (\<Sum>val\<leftarrow>rest. card (completions (put board (row, col) val)))))"
        using Cons.IH [OF rest le] .
      then show ?thesis
        using iv False pl so un small by (simp add: count_candidates.simps)
    qed
  qed
qed

lemma solveInternal_correct:
  "valid_grid board \<Longrightarrow> n \<le> 1 \<Longrightarrow>
     solveInternal board n = Inr (board, min 2 (n + card (completions board)))"
proof (induction "empties board" arbitrary: board n rule: less_induct)
  case less
  have g: "grid board" using less.prems by (simp add: valid_grid_def)
  from g show ?case
  proof (cases rule: first_empty_grid_cases)
    case full
    have "completions board = {board}"
      using less.prems full(2) by (intro completions_full) (simp_all add: valid_grid_def)
    then show ?thesis
      using full(1) less.prems(2) by (simp add: solveInternal.simps)
  next
    case (hole row col)
    have "count_candidates board row col LETTERS n =
      Inr (board, min 2 (n + (\<Sum>val\<leftarrow>LETTERS. card (completions (put board (row, col) val)))))"
      using less.hyps less.prems hole(2,3)
      by (intro count_candidates_correct) simp_all
    then show ?thesis
      using hole(1) card_completions_at_hole [OF g hole(2,3)] by (simp add: solveInternal.simps)
  qed
qed

lemma cell_deep_copy:
  "grid board \<Longrightarrow> p \<in> set cells \<Longrightarrow>
     cell (deep_copy board) p = (if cell board p = Undefined then Null else cell board p)"
  by (simp add: cell_def deep_copy_def in_cells grid_row_length) (simp add: grid_def)

lemma deep_copy_grid:
  assumes "grid board" "symbols_ok board"
  shows "deep_copy board = board"
proof (rule grid_ext)
  show "grid (deep_copy board)" using assms(1) by (rule grid_deep_copy)
  show "grid board" by fact
  fix p assume p: "p \<in> set cells"
  then have "cell board p \<noteq> Undefined"
    using assms(2) by (auto simp: symbols_ok_def EMPTY_def LETTERS_def)
  then show "cell (deep_copy board) p = cell board p"
    using assms(1) p by (simp add: cell_deep_copy)
qed

lemma countSolutions_correct:
  "valid_grid board \<Longrightarrow> countSolutions board = Inr (min 2 (card (completions board)))"
  using solveInternal_correct [of board 0]
  by (simp add: countSolutions_def deep_copy_grid valid_grid_def)

lemma min_2_card_cases:
  assumes "finite A"
  shows "(min 2 (card A) = 0 \<longleftrightarrow> A = {}) \<and>
         (min 2 (card A) = 1 \<longleftrightarrow> (\<exists>a. A = {a})) \<and>
         (2 \<le> min 2 (card A) \<longleftrightarrow> (\<exists>a b. a \<in> A \<and> b \<in> A \<and> a \<noteq> b))"
proof (intro conjI)
  show "min 2 (card A) = 0 \<longleftrightarrow> A = {}"
    using assms by (auto simp: min_def)
  show "min 2 (card A) = 1 \<longleftrightarrow> (\<exists>a. A = {a})"
    by (auto simp: min_def card_1_singleton_iff)
  have "2 \<le> card A \<longleftrightarrow> \<not> card A \<le> Suc 0"
    by auto
  also have "\<dots> \<longleftrightarrow> (\<exists>a b. a \<in> A \<and> b \<in> A \<and> a \<noteq> b)"
    using assms by (auto simp: card_le_Suc0_iff_eq)
  finally show "2 \<le> min 2 (card A) \<longleftrightarrow> (\<exists>a b. a \<in> A \<and> b \<in> A \<and> a \<noteq> b)"
    by simp
qed

text \<open>
  C2: on a grid over the alphabet whose filled cells satisfy the constraints,
  \<open>countSolutions\<close> returns 0 exactly when the grid has no completion, 1 exactly when it
  has one completion and no other, and 2 or more exactly when it has two different
  completions.
\<close>

theorem countSolutions_zero_one_many:
  assumes "grid board" "symbols_ok board" "consistent board"
  shows "\<exists>n. countSolutions board = Inr n \<and>
           (n = 0 \<longleftrightarrow> completions board = {}) \<and>
           (n = 1 \<longleftrightarrow> (\<exists>full. completions board = {full})) \<and>
           (2 \<le> n \<longleftrightarrow>
              (\<exists>full full'. full \<in> completions board \<and> full' \<in> completions board \<and> full \<noteq> full'))"
proof -
  have "countSolutions board = Inr (min 2 (card (completions board)))"
    using assms by (intro countSolutions_correct) (simp add: valid_grid_def)
  then show ?thesis
    using min_2_card_cases [OF finite_completions, of board] by simp
qed

theorem countSolutions_zero_one_many_witness:
  "countSolutions dead_end = Inr 0 \<and> completions dead_end = {} \<and>
   countSolutions two_holes = Inr 1 \<and> (\<exists>full. completions two_holes = {full}) \<and>
   countSolutions (replicate SIZE (replicate SIZE EMPTY)) = Inr 2 \<and>
   (\<exists>full full'. full \<in> completions (replicate SIZE (replicate SIZE EMPTY)) \<and>
      full' \<in> completions (replicate SIZE (replicate SIZE EMPTY)) \<and> full \<noteq> full')"
proof -
  have a: "grid dead_end" "symbols_ok dead_end" "consistent dead_end"
    by code_simp+
  have b: "grid two_holes" "symbols_ok two_holes" "consistent two_holes"
    by code_simp+
  have c: "grid (replicate SIZE (replicate SIZE EMPTY))"
    "symbols_ok (replicate SIZE (replicate SIZE EMPTY))"
    "consistent (replicate SIZE (replicate SIZE EMPTY))"
    by code_simp+
  have r: "countSolutions dead_end = Inr 0" "countSolutions two_holes = Inr 1"
    "countSolutions (replicate SIZE (replicate SIZE EMPTY)) = Inr 2"
    by code_simp+
  show ?thesis
    using countSolutions_zero_one_many [OF a] countSolutions_zero_one_many [OF b]
      countSolutions_zero_one_many [OF c] r
    by simp
qed

section \<open>Hole digging\<close>

lemma extends_refl: "extends board board"
  by (simp add: extends_def)

lemma extends_blank:
  "grid board \<Longrightarrow> p \<in> set cells \<Longrightarrow> extends board full \<Longrightarrow> extends (put board p EMPTY) full"
  by (simp add: extends_def cell_put)

lemma extends_blank_self:
  "grid board \<Longrightarrow> p \<in> set cells \<Longrightarrow> extends (put board p EMPTY) board"
  by (simp add: extends_def cell_put)

lemma extends_trans:
  assumes "extends a b" "extends b c"
  shows "extends a c"
  unfolding extends_def
proof (intro ballI impI)
  fix p assume p: "p \<in> set cells" and ne: "cell a p \<noteq> EMPTY"
  then have "cell b p = cell a p"
    using assms(1) by (simp add: extends_def)
  then show "cell c p = cell a p"
    using assms(2) p ne by (simp add: extends_def)
qed

lemma consistent_of_extends:
  assumes "solved full" "extends board full"
  shows "consistent board"
  unfolding consistent_def
proof (intro ballI impI)
  fix p q assume p: "p \<in> set cells" and q: "q \<in> set cells"
    and h: "peers p q \<and> cell board p \<noteq> EMPTY"
  show "cell board p \<noteq> cell board q"
  proof
    assume eq: "cell board p = cell board q"
    then have "cell full p = cell board p" "cell full q = cell board p"
      using assms(2) p q h by (auto simp: extends_def)
    moreover have "cell full p \<noteq> cell full q"
      using assms(1) p q h calculation(1) by (intro consistentD) (simp_all add: solved_def)
    ultimately show False by simp
  qed
qed

lemma valid_grid_of_extends:
  "grid board \<Longrightarrow> symbols_ok board \<Longrightarrow> solved full \<Longrightarrow> extends board full \<Longrightarrow> valid_grid board"
  by (simp add: valid_grid_def consistent_of_extends)

lemma completions_mono:
  assumes "grid a" "grid b" "p \<in> set cells" "extends a b"
  shows "completions (put b p EMPTY) \<subseteq> completions (put a p EMPTY)"
proof
  fix full assume f: "full \<in> completions (put b p EMPTY)"
  have "extends (put a p EMPTY) full"
    unfolding extends_def
  proof (intro ballI impI)
    fix q assume q: "q \<in> set cells" and ne: "cell (put a p EMPTY) q \<noteq> EMPTY"
    then have qp: "q \<noteq> p" and na: "cell a q \<noteq> EMPTY"
      using assms(1,3) by (auto simp: cell_put split: if_splits)
    then have "cell b q = cell a q"
      using assms(4) q by (simp add: extends_def)
    then have "cell (put b p EMPTY) q = cell a q"
      using assms(2,3) qp by (simp add: cell_put)
    then have "cell full q = cell a q"
      using f q na by (auto simp: completions_def extends_def)
    then show "cell full q = cell (put a p EMPTY) q"
      using assms(1,3) qp by (simp add: cell_put)
  qed
  then show "full \<in> completions (put a p EMPTY)"
    using f by (simp add: completions_def)
qed

lemma clues_split:
  "clues board =
     length (filter (\<lambda>q. q \<noteq> p \<and> cell board q \<noteq> EMPTY) cells) +
     (if p \<in> set cells \<and> cell board p \<noteq> EMPTY then 1 else 0)"
  unfolding clues_def
  using filter_split_off [OF distinct_cells, of "\<lambda>q. cell board q \<noteq> EMPTY" p] by simp

lemma clues_blank:
  assumes "grid board" "p \<in> set cells" "cell board p \<noteq> EMPTY"
  shows "clues (put board p EMPTY) + 1 = clues board"
proof -
  have "filter (\<lambda>q. q \<noteq> p \<and> cell (put board p EMPTY) q \<noteq> EMPTY) cells =
      filter (\<lambda>q. q \<noteq> p \<and> cell board q \<noteq> EMPTY) cells"
    using assms(1,2) by (intro filter_cong refl conj_cong) (simp_all add: cell_put)
  then show ?thesis
    using clues_split [of "put board p EMPTY" p] clues_split [of board p] assms
    by (simp add: cell_put)
qed

lemma clues_filled: "filled board \<Longrightarrow> clues board = 16"
proof -
  assume "filled board"
  then have "\<forall>p \<in> set cells. cell board p \<noteq> EMPTY"
    using EMPTY_notin_LETTERS by (auto simp: filled_def)
  then have "filter (\<lambda>p. cell board p \<noteq> EMPTY) cells = cells"
    by (simp add: filter_id_conv)
  then show ?thesis
    by (simp add: clues_def cells_unfold)
qed

text \<open>
  What the digging loop establishes, from a puzzle whose only completion is the solution:
  the final puzzle has still that one completion, it has clues only where the puzzle it
  started from has them, cells off the list of positions are untouched, every
  decrement of \<open>cellsToRemove\<close> removed one clue, and when the loop ends with removals
  still to make, each clue left at a visited position is one whose removal gives a second
  completion.
\<close>

definition dig_result ::
  "board \<Rightarrow> board \<Rightarrow> (nat \<times> nat) list \<Rightarrow> int \<Rightarrow> board \<Rightarrow> int \<Rightarrow> bool" where
  "dig_result solution puzzle ps n final m \<longleftrightarrow>
     grid final \<and> symbols_ok final \<and> completions final = {solution} \<and>
     extends final puzzle \<and>
     (\<forall>q \<in> set cells. q \<notin> set ps \<longrightarrow> cell final q = cell puzzle q) \<and>
     (0 \<le> n \<longrightarrow> 0 \<le> m \<and> int (clues final) + n = int (clues puzzle) + m) \<and>
     (0 < m \<longrightarrow>
        (\<forall>q \<in> set ps. cell final q \<noteq> EMPTY \<longrightarrow> 2 \<le> card (completions (put final q EMPTY))))"

lemma dig_correct:
  assumes sol: "solved solution"
  shows "grid puzzle \<Longrightarrow> symbols_ok puzzle \<Longrightarrow> completions puzzle = {solution} \<Longrightarrow>
    distinct ps \<Longrightarrow> set ps \<subseteq> set cells \<Longrightarrow> \<forall>p \<in> set ps. cell puzzle p \<noteq> EMPTY \<Longrightarrow>
    \<exists>final m. dig puzzle ps n = Inr (final, m) \<and> dig_result solution puzzle ps n final m"
proof (induction ps arbitrary: puzzle n)
  case Nil
  then show ?case
    by (simp add: dig_result_def extends_refl)
next
  case (Cons p rest)
  obtain r c where p: "p = (r, c)" by (cases p)
  have g: "grid puzzle" and so: "symbols_ok puzzle" and un: "completions puzzle = {solution}"
    by fact+
  have pc: "p \<in> set cells" and pr: "p \<notin> set rest" and dr: "distinct rest"
    and rc: "set rest \<subseteq> set cells" and pe: "cell puzzle p \<noteq> EMPTY"
    using Cons.prems by simp_all
  show ?case
  proof (cases "n \<le> 0")
    case True
    then show ?thesis
      using g so un p by (simp add: dig_result_def extends_refl)
  next
    case False
    let ?blanked = "put puzzle p EMPTY"
    have es: "extends puzzle solution"
      using un by (auto simp: completions_def)
    have gb: "grid ?blanked"
      using g by (rule grid_put)
    have sb: "symbols_ok ?blanked"
      using g pc so by (intro symbols_ok_put) simp_all
    have eb: "extends ?blanked solution"
      using g pc es by (rule extends_blank)
    have vb: "valid_grid ?blanked"
      using gb sb sol eb by (rule valid_grid_of_extends)
    have inb: "solution \<in> completions ?blanked"
      using sol eb by (simp add: completions_def)
    have rd: "get_cell puzzle r c = Inr (cell puzzle p)"
      using get_cell_grid [OF g pc] p by simp
    have wr: "set_cell puzzle r c EMPTY = Inr ?blanked"
      using set_cell_grid [OF g pc] p by simp
    have cs: "countSolutions ?blanked = Inr (min 2 (card (completions ?blanked)))"
      using vb by (rule countSolutions_correct)
    show ?thesis
    proof (cases "min 2 (card (completions ?blanked)) = 1")
      case one: True
      then have "card (completions ?blanked) = 1"
        by (simp add: min_def split: if_splits)
      then have "\<exists>other. completions ?blanked = {other}"
        by (simp only: One_nat_def card_1_singleton_iff)
      then obtain other where "completions ?blanked = {other}" ..
      then have ub: "completions ?blanked = {solution}"
        using inb by simp
      have nb: "\<forall>q \<in> set rest. cell ?blanked q \<noteq> EMPTY"
        using Cons.prems(6) g pc pr by (auto simp: cell_put)
      from Cons.IH [OF gb sb ub dr rc nb, of "n - 1"] obtain final m where
        d: "dig ?blanked rest (n - 1) = Inr (final, m)"
          "dig_result solution ?blanked rest (n - 1) final m"
        by blast
      have run: "dig puzzle (p # rest) n = Inr (final, m)"
        using False p rd wr cs one d(1) by simp
      have fr: "\<forall>q \<in> set cells. q \<notin> set rest \<longrightarrow> cell final q = cell ?blanked q"
        using d(2) by (simp add: dig_result_def)
      have "extends final ?blanked"
        using d(2) by (simp add: dig_result_def)
      then have "extends final puzzle"
        using extends_blank_self [OF g pc] by (rule extends_trans)
      moreover have "\<forall>q \<in> set cells. q \<notin> set (p # rest) \<longrightarrow> cell final q = cell puzzle q"
        using fr g pc by (auto simp: cell_put)
      moreover have "0 \<le> m \<and> int (clues final) + n = int (clues puzzle) + m"
        using d(2) False clues_blank [OF g pc pe] by (simp add: dig_result_def)
      moreover have "cell final p = EMPTY"
        using fr pc pr g by (simp add: cell_put)
      then have "0 < m \<longrightarrow>
          (\<forall>q \<in> set (p # rest). cell final q \<noteq> EMPTY \<longrightarrow>
             2 \<le> card (completions (put final q EMPTY)))"
        using d(2) by (simp add: dig_result_def)
      ultimately have "dig_result solution puzzle (p # rest) n final m"
        using d(2) by (simp add: dig_result_def)
      with run show ?thesis by blast
    next
      case several: False
      have "1 \<le> card (completions ?blanked)"
        using inb finite_completions [of ?blanked] by (simp add: Suc_le_eq card_gt_0_iff) blast
      with several have two: "2 \<le> card (completions ?blanked)"
        by (simp add: min_def split: if_splits)
      have restore: "set_cell ?blanked r c (cell puzzle p) = Inr puzzle"
        using set_cell_grid [OF gb pc, of "cell puzzle p"] p by (simp add: put_put put_same)
      from Cons.IH [OF g so un dr rc, of n] Cons.prems(6) obtain final m where
        d: "dig puzzle rest n = Inr (final, m)" "dig_result solution puzzle rest n final m"
        by auto
      have run: "dig puzzle (p # rest) n = Inr (final, m)"
        using False p rd wr cs several restore d(1) by simp
      have fr: "\<forall>q \<in> set cells. q \<notin> set rest \<longrightarrow> cell final q = cell puzzle q"
        and gf: "grid final" and ef: "extends final puzzle"
        using d(2) by (simp_all add: dig_result_def)
      have "completions ?blanked \<subseteq> completions (put final p EMPTY)"
        using gf g pc ef by (rule completions_mono)
      then have "card (completions ?blanked) \<le> card (completions (put final p EMPTY))"
        by (intro card_mono finite_completions)
      with two have "2 \<le> card (completions (put final p EMPTY))"
        by simp
      then have "0 < m \<longrightarrow>
          (\<forall>q \<in> set (p # rest). cell final q \<noteq> EMPTY \<longrightarrow>
             2 \<le> card (completions (put final q EMPTY)))"
        using d(2) by (simp add: dig_result_def)
      moreover have "\<forall>q \<in> set cells. q \<notin> set (p # rest) \<longrightarrow> cell final q = cell puzzle q"
        using fr by simp
      ultimately have "dig_result solution puzzle (p # rest) n final m"
        using d(2) by (simp add: dig_result_def)
      with run show ?thesis by blast
    qed
  qed
qed

section \<open>The puzzle generator\<close>

lemma dig_result_cong:
  "set ps = set ps' \<Longrightarrow>
     dig_result solution puzzle ps n final m = dig_result solution puzzle ps' n final m"
  by (simp add: dig_result_def)

lemma symbols_ok_filled: "filled board \<Longrightarrow> symbols_ok board"
  by (simp add: filled_def symbols_ok_def)

lemma completions_solved:
  assumes "solved board"
  shows "completions board = {board}"
proof -
  have "\<forall>p \<in> set cells. cell board p \<noteq> EMPTY"
    using assms EMPTY_notin_LETTERS by (auto simp: solved_def filled_def)
  then show ?thesis
    using assms by (intro completions_full) (simp_all add: solved_def symbols_ok_filled)
qed

lemma shuffle_cells:
  assumes "shuffle cells g = (positions, g')"
  shows "distinct positions" and "set positions = set cells"
proof -
  have m: "mset positions = mset cells"
    using mset_shuffle [of cells g] assms by simp
  show "distinct positions"
    using mset_eq_imp_distinct_iff [OF m] distinct_cells by simp
  show "set positions = set cells"
    using m by (rule mset_eq_setD)
qed

lemma generatePuzzle_correct:
  "\<exists>puzzle solution g' drawn m.
     generatePuzzle minClues maxClues g = Inr ((puzzle, solution), g') \<and>
     solved solution \<and>
     (0 < maxClues - minClues + 1 \<longrightarrow> 0 \<le> drawn \<and> drawn < maxClues - minClues + 1) \<and>
     dig_result solution solution cells (16 - (drawn + minClues)) puzzle m"
proof -
  obtain solution g1 where
    full: "generateFullBoard g = Inr (solution, g1)" and sol: "solved solution"
    using generateFullBoard_solved [of g] by blast
  have gs: "grid solution" and fs: "filled solution"
    using sol by (simp_all add: solved_def)
  have copy: "deep_copy solution = solution"
    using gs fs by (intro deep_copy_grid symbols_ok_filled)
  obtain drawn g2 where
    dr: "random_below (maxClues - minClues + 1) g1 = (drawn, g2)"
    by (cases "random_below (maxClues - minClues + 1) g1")
  have range: "0 < maxClues - minClues + 1 \<longrightarrow> 0 \<le> drawn \<and> drawn < maxClues - minClues + 1"
    using random_below_range [of "maxClues - minClues + 1" g1] dr by simp
  obtain positions g3 where sh: "shuffle cells g2 = (positions, g3)"
    by (cases "shuffle cells g2")
  note pos = shuffle_cells [OF sh]
  have ne: "\<forall>p \<in> set positions. cell solution p \<noteq> EMPTY"
    using fs pos(2) EMPTY_notin_LETTERS by (auto simp: filled_def)
  have "\<exists>final m. dig solution positions (16 - (drawn + minClues)) = Inr (final, m) \<and>
      dig_result solution solution positions (16 - (drawn + minClues)) final m"
    using sol gs symbols_ok_filled [OF fs] completions_solved [OF sol] pos(1) _ ne
    by (rule dig_correct) (simp add: pos(2))
  then obtain puzzle m where
    d: "dig solution positions (16 - (drawn + minClues)) = Inr (puzzle, m)"
      "dig_result solution solution positions (16 - (drawn + minClues)) puzzle m"
    by blast
  have "generatePuzzle minClues maxClues g = Inr ((puzzle, solution), g3)"
    using full copy dr sh d(1) by (simp add: generatePuzzle_def)
  moreover have "dig_result solution solution cells (16 - (drawn + minClues)) puzzle m"
    using d(2) dig_result_cong [OF pos(2)] by simp
  ultimately show ?thesis
    using sol range by blast
qed

lemma unique_puzzle_facts:
  assumes "grid puzzle" "symbols_ok puzzle" "completions puzzle = {solution}"
  shows "solved solution" "extends puzzle solution" "valid_grid puzzle"
    "countSolutions puzzle = Inr 1"
    "\<exists>h'. solve (deep_copy puzzle) False h = Inr (True, solution, h')"
proof -
  show sol: "solved solution" and ext: "extends puzzle solution"
    using assms(3) by (auto simp: completions_def)
  show v: "valid_grid puzzle"
    using assms(1,2) sol ext by (rule valid_grid_of_extends)
  show "countSolutions puzzle = Inr 1"
    using countSolutions_correct [OF v] assms(3) by simp
  show "\<exists>h'. solve (deep_copy puzzle) False h = Inr (True, solution, h')"
    using solve_correct [OF v, of False h] assms by (auto simp: deep_copy_grid)
qed

text \<open>
  C1: whatever the clue range and the random source, \<open>generatePuzzle\<close> returns a pair of
  a puzzle and a solution. The solution is a solved grid; every non-empty cell of the
  puzzle holds the value of the solution there; the solution is the one completion of
  the puzzle and there is no other; \<open>countSolutions\<close> returns 1 on the puzzle; and \<open>solve\<close>
  without randomization on a copy of the puzzle returns true and leaves the solution.
\<close>

theorem generatePuzzle_unique_solution:
  "\<exists>puzzle solution g'.
     generatePuzzle minClues maxClues g = Inr ((puzzle, solution), g') \<and>
     grid puzzle \<and> solved solution \<and>
     (\<forall>p \<in> set cells. cell puzzle p \<noteq> EMPTY \<longrightarrow> cell puzzle p = cell solution p) \<and>
     (\<forall>full. solved full \<and> extends puzzle full \<longleftrightarrow> full = solution) \<and>
     countSolutions puzzle = Inr 1 \<and>
     (\<exists>h'. solve (deep_copy puzzle) False h = Inr (True, solution, h'))"
proof -
  obtain puzzle solution g' drawn m where
    r: "generatePuzzle minClues maxClues g = Inr ((puzzle, solution), g')"
      "dig_result solution solution cells (16 - (drawn + minClues)) puzzle m"
    using generatePuzzle_correct [of minClues maxClues g] by blast
  have p: "grid puzzle" "symbols_ok puzzle" "completions puzzle = {solution}"
    using r(2) by (simp_all add: dig_result_def)
  note f = unique_puzzle_facts [OF p]
  have "\<forall>p \<in> set cells. cell puzzle p \<noteq> EMPTY \<longrightarrow> cell puzzle p = cell solution p"
    using f(2) by (simp add: extends_def)
  moreover have "\<forall>full. solved full \<and> extends puzzle full \<longleftrightarrow> full = solution"
    using p(3) by (auto simp: completions_def)
  ultimately show ?thesis
    using r(1) p(1) f(1,4) f(5) [of h] by blast
qed

theorem generatePuzzle_unique_solution_witness:
  "\<exists>puzzle solution g'.
     generatePuzzle 6 8 (\<lambda>k. real k / 7) = Inr ((puzzle, solution), g') \<and>
     grid puzzle \<and> solved solution \<and>
     (\<forall>p \<in> set cells. cell puzzle p \<noteq> EMPTY \<longrightarrow> cell puzzle p = cell solution p) \<and>
     (\<forall>full. solved full \<and> extends puzzle full \<longleftrightarrow> full = solution) \<and>
     countSolutions puzzle = Inr 1 \<and>
     (\<exists>h'. solve (deep_copy puzzle) False (\<lambda>k. 0) = Inr (True, solution, h'))"
  using generatePuzzle_unique_solution [of 6 8 "\<lambda>k. real k / 7" "\<lambda>k. 0"] .

text \<open>
  C7: with the default range 6 to 8 the puzzle has at least 6 clues and the solution is its
  one completion. It has at most 8 clues, unless uniqueness blocked the removals: then
  every clue that is left is needed, in that \<open>countSolutions\<close> finds a second solution once
  the clue is blanked.
\<close>

theorem generatePuzzle_default_clues:
  "\<exists>puzzle solution g'.
     generatePuzzle 6 8 g = Inr ((puzzle, solution), g') \<and>
     6 \<le> clues puzzle \<and>
     (\<forall>full. solved full \<and> extends puzzle full \<longleftrightarrow> full = solution) \<and>
     (clues puzzle \<le> 8 \<or>
      (\<forall>p \<in> set cells. cell puzzle p \<noteq> EMPTY \<longrightarrow> countSolutions (put puzzle p EMPTY) = Inr 2))"
proof -
  obtain puzzle solution g' drawn m where
    r: "generatePuzzle 6 8 g = Inr ((puzzle, solution), g')" "solved solution"
      "0 < (8::int) - 6 + 1 \<longrightarrow> 0 \<le> drawn \<and> drawn < 8 - 6 + 1"
      "dig_result solution solution cells (16 - (drawn + 6)) puzzle m"
    using generatePuzzle_correct [of 6 8 g] by blast
  have p: "grid puzzle" "symbols_ok puzzle" "completions puzzle = {solution}"
    using r(4) by (simp_all add: dig_result_def)
  have d: "0 \<le> drawn" "drawn < 3"
    using r(3) by simp_all
  have "clues solution = 16"
    using r(2) by (simp add: solved_def clues_filled)
  then have count: "0 \<le> m" "int (clues puzzle) + (16 - (drawn + 6)) = 16 + m"
    using r(4) d by (simp_all add: dig_result_def)
  have least: "6 \<le> clues puzzle"
    using count d by linarith
  have unique: "\<forall>full. solved full \<and> extends puzzle full \<longleftrightarrow> full = solution"
    using p(3) by (auto simp: completions_def)
  show ?thesis
  proof (cases "0 < m")
    case False
    then have "clues puzzle \<le> 8"
      using count d by linarith
    then show ?thesis
      using r(1) least unique by blast
  next
    case True
    have "countSolutions (put puzzle q EMPTY) = Inr 2"
      if q: "q \<in> set cells" and ne: "cell puzzle q \<noteq> EMPTY" for q
    proof -
      have two: "2 \<le> card (completions (put puzzle q EMPTY))"
        using r(4) True q ne by (simp add: dig_result_def)
      have "extends (put puzzle q EMPTY) solution"
        using p(1) q unique_puzzle_facts(2) [OF p] by (rule extends_blank)
      then have "valid_grid (put puzzle q EMPTY)"
        using p(1,2) q r(2)
        by (intro valid_grid_of_extends [of _ solution] grid_put symbols_ok_put) simp_all
      then show ?thesis
        using countSolutions_correct [of "put puzzle q EMPTY"] two by simp
    qed
    then show ?thesis
      using r(1) least unique by blast
  qed
qed

theorem generatePuzzle_default_clues_witness:
  "\<exists>puzzle solution g'.
     generatePuzzle 6 8 (\<lambda>k. real k / 7) = Inr ((puzzle, solution), g') \<and>
     6 \<le> clues puzzle \<and>
     (\<forall>full. solved full \<and> extends puzzle full \<longleftrightarrow> full = solution) \<and>
     (clues puzzle \<le> 8 \<or>
      (\<forall>p \<in> set cells. cell puzzle p \<noteq> EMPTY \<longrightarrow> countSolutions (put puzzle p EMPTY) = Inr 2))"
  using generatePuzzle_default_clues [of "\<lambda>k. real k / 7"] .

section \<open>The caller's grid under \<open>countSolutions\<close>\<close>

text \<open>
  Whether \<open>countSolutions\<close> changes the grid of its caller is a question about aliasing, so
  here the row arrays are objects on a heap. A board is the list of the references of its
  rows (the program never assigns to an outer array, only to cells of rows). A new array
  takes the next unused reference. \<open>JSON.parse(JSON.stringify(board))\<close> builds a new row for
  every row of the board. \<open>solveInternal\<close> gets the copy: the rows it starts from are read
  off the heap at the copy's references, and the rows it leaves are written back there.
\<close>

type_synonym ref = nat

record heap =
  row_at :: "ref \<Rightarrow> jsval list"
  next_ref :: ref

definition load :: "heap \<Rightarrow> ref list \<Rightarrow> board" where
  "load h board = map (row_at h) board"

definition new_row :: "heap \<Rightarrow> jsval list \<Rightarrow> heap \<times> ref" where
  "new_row h row =
     (h\<lparr>row_at := (row_at h)(next_ref h := row), next_ref := Suc (next_ref h)\<rparr>, next_ref h)"

fun json_copy :: "heap \<Rightarrow> board \<Rightarrow> heap \<times> ref list" where
  "json_copy h [] = (h, [])"
| "json_copy h (row # rows) =
     (let (h1, r) = new_row h (map (\<lambda>v. if v = Undefined then Null else v) row);
          (h2, rs) = json_copy h1 rows
      in (h2, r # rs))"

fun store :: "heap \<Rightarrow> ref list \<Rightarrow> board \<Rightarrow> heap" where
  "store h (r # rs) (row # rows) = store (h\<lparr>row_at := (row_at h)(r := row)\<rparr>) rs rows"
| "store h rs rows = h"

definition countSolutions_heap :: "heap \<Rightarrow> ref list \<Rightarrow> js_error + (heap \<times> nat)" where
  "countSolutions_heap h board =
     (let (h1, copy) = json_copy h (load h board)
      in case solveInternal (load h1 copy) 0 of
           Inl e \<Rightarrow> Inl e
         | Inr (currentBoard, counter) \<Rightarrow> Inr (store h1 copy currentBoard, counter))"

lemma json_copy_fresh:
  "json_copy h rows = (h', copy) \<Longrightarrow>
     next_ref h \<le> next_ref h' \<and>
     (\<forall>r \<in> set copy. next_ref h \<le> r \<and> r < next_ref h') \<and>
     (\<forall>r. r < next_ref h \<longrightarrow> row_at h' r = row_at h r) \<and>
     load h' copy = deep_copy rows"
proof (induction rows arbitrary: h h' copy)
  case Nil
  then show ?case by (simp add: load_def deep_copy_def)
next
  case (Cons row rows)
  let ?h1 = "fst (new_row h (map (\<lambda>v. if v = Undefined then Null else v) row))"
  obtain h2 rs where rec: "json_copy ?h1 rows = (h2, rs)"
    by (cases "json_copy ?h1 rows")
  have res: "h' = h2" "copy = next_ref h # rs"
    using Cons.prems rec by (simp_all add: new_row_def)
  have n1: "next_ref ?h1 = Suc (next_ref h)"
    by (simp add: new_row_def)
  have r1: "row_at ?h1 = (row_at h)(next_ref h := map (\<lambda>v. if v = Undefined then Null else v) row)"
    by (simp add: new_row_def)
  note ih = Cons.IH [OF rec]
  have "row_at h2 (next_ref h) = map (\<lambda>v. if v = Undefined then Null else v) row"
    using ih n1 r1 by simp
  then show ?case
    using ih n1 r1 res by (auto simp: load_def deep_copy_def)
qed

lemma store_frame: "r \<notin> set rs \<Longrightarrow> row_at (store h rs rows) r = row_at h r"
  by (induction h rs rows rule: store.induct) auto

lemma next_ref_store: "next_ref (store h rs rows) = next_ref h"
  by (induction h rs rows rule: store.induct) auto

lemma countSolutions_heap_frame:
  assumes "countSolutions_heap h board = Inr (h', n)"
  shows "\<forall>r. r < next_ref h \<longrightarrow> row_at h' r = row_at h r"
    and "countSolutions (load h board) = Inr n"
proof -
  obtain h1 copy where c: "json_copy h (load h board) = (h1, copy)"
    by (cases "json_copy h (load h board)")
  note f = json_copy_fresh [OF c]
  from assms c obtain currentBoard where
    s: "solveInternal (load h1 copy) 0 = Inr (currentBoard, n)"
      "h' = store h1 copy currentBoard"
    by (auto simp: countSolutions_heap_def split: sum.splits)
  show "\<forall>r. r < next_ref h \<longrightarrow> row_at h' r = row_at h r"
  proof (intro allI impI)
    fix r assume r: "r < next_ref h"
    then have "r \<notin> set copy" using f by auto
    then show "row_at h' r = row_at h r"
      using s(2) f r by (simp add: store_frame)
  qed
  show "countSolutions (load h board) = Inr n"
    using s(1) f by (simp add: countSolutions_def)
qed

lemma countSolutions_heap_returns:
  assumes "grid (load h board)"
  shows "\<exists>h' n. countSolutions_heap h board = Inr (h', n)"
proof -
  obtain h1 copy where c: "json_copy h (load h board) = (h1, copy)"
    by (cases "json_copy h (load h board)")
  have "load h1 copy = deep_copy (load h board)"
    using json_copy_fresh [OF c] by simp
  then have "grid (load h1 copy)"
    using assms by (simp add: grid_deep_copy)
  then obtain res where "solveInternal (load h1 copy) 0 = Inr res"
    using solveInternal_returns(1) by blast
  then show ?thesis
    using c by (cases res) (simp add: countSolutions_heap_def)
qed

text \<open>A heap that holds the board \<open>two_holes\<close> in the rows 0 to 3, and nothing else.\<close>

definition two_holes_heap :: heap where
  "two_holes_heap = \<lparr>row_at = (\<lambda>r. if r < SIZE then two_holes ! r else []), next_ref = SIZE\<rparr>"

text \<open>
  C6: a call of \<open>countSolutions\<close> that returns leaves every array that existed before the
  call as it was, so every cell of the caller's grid holds the value it held before; the
  search wrote to the rows of the copy only. The count is the one of the state-passing
  model, and on a grid the call does return.
\<close>

theorem countSolutions_leaves_grid:
  assumes "\<forall>r \<in> set board. r < next_ref h"
  shows "(\<forall>h' n. countSolutions_heap h board = Inr (h', n) \<longrightarrow>
            (\<forall>r. r < next_ref h \<longrightarrow> row_at h' r = row_at h r) \<and>
            load h' board = load h board \<and>
            countSolutions (load h board) = Inr n) \<and>
         (grid (load h board) \<longrightarrow> (\<exists>h' n. countSolutions_heap h board = Inr (h', n)))"
proof (intro conjI allI impI)
  fix h' n assume run: "countSolutions_heap h board = Inr (h', n)"
  show old: "\<And>r. r < next_ref h \<Longrightarrow> row_at h' r = row_at h r"
    using countSolutions_heap_frame(1) [OF run] by simp
  show "load h' board = load h board"
    using assms old by (simp add: load_def)
  show "countSolutions (load h board) = Inr n"
    using run by (rule countSolutions_heap_frame(2))
next
  assume "grid (load h board)"
  then show "\<exists>h' n. countSolutions_heap h board = Inr (h', n)"
    by (rule countSolutions_heap_returns)
qed

theorem countSolutions_leaves_grid_witness:
  "next_ref two_holes_heap = SIZE \<and>
   load two_holes_heap [0, 1, 2, 3] = two_holes \<and>
   (\<exists>h'. countSolutions_heap two_holes_heap [0, 1, 2, 3] = Inr (h', 1) \<and>
      load h' [0, 1, 2, 3] = two_holes)"
proof -
  have a: "\<forall>r \<in> set [0, 1, 2, 3]. r < next_ref two_holes_heap"
    by (simp add: two_holes_heap_def)
  have l: "load two_holes_heap [0, 1, 2, 3] = two_holes"
    by code_simp
  have "(case countSolutions_heap two_holes_heap [0, 1, 2, 3] of
           Inl e \<Rightarrow> None | Inr (h', n) \<Rightarrow> Some n) = Some 1"
    by code_simp
  then obtain h' where "countSolutions_heap two_holes_heap [0, 1, 2, 3] = Inr (h', 1)"
    by (auto split: sum.splits)
  then show ?thesis
    using countSolutions_leaves_grid [OF a] l by (auto simp: two_holes_heap_def)
qed

end
